theory Spec2Isabelle
  imports Complex_Main
begin

section \<open>Positions and formula errors\<close>

text \<open>
  \<^verbatim>\<open>common.h\<close> is not among the sources. \<open>Position\<close> is the struct with the two
  \<^verbatim>\<open>int\<close> fields \<open>row\<close> and \<open>col\<close> that \<^verbatim>\<open>sheet.cpp\<close> reads.
\<close>

datatype Position = Position (row: int) (col: int)

text \<open>Modelled from the spec: \<open>Position::IsValid\<close> (\<^verbatim>\<open>common.cpp\<close> is missing),
  "\<open>0 \<le> row < 16384\<close>, \<open>0 \<le> col < 16384\<close>".\<close>

definition IsValid :: "Position \<Rightarrow> bool" where
  "IsValid p \<longleftrightarrow> 0 \<le> row p \<and> row p < 16384 \<and> 0 \<le> col p \<and> col p < 16384"

text \<open>Modelled from the spec: \<open>Position::operator<\<close> (\<^verbatim>\<open>common.h\<close> is missing),
  "ordering is lexicographic \<open>(row, col)\<close>".\<close>

definition Position_less :: "Position \<Rightarrow> Position \<Rightarrow> bool" where
  "Position_less a b \<longleftrightarrow> row a < row b \<or> (row a = row b \<and> col a < col b)"

text \<open>\<open>FormulaError::Category\<close>; \<^verbatim>\<open>formula.cpp\<close> names \<open>Ref\<close> and \<open>Value\<close>, the spec the third.\<close>

datatype Category = Ref | Value | Div0

datatype FormulaError = FormulaError (GetCategory: Category)

text \<open>\<^verbatim>\<open>std::ostream& operator<<(std::ostream& output, FormulaError fe) { return output << "#DIV/0!"; }\<close>
  The function returns the characters appended to the stream.\<close>

definition print_FormulaError :: "FormulaError \<Rightarrow> string" where
  "print_FormulaError fe = ''#DIV/0!''"

section \<open>Formulas\<close>

text \<open>
  Cell values are \<^verbatim>\<open>double\<close>s. Every \<^verbatim>\<open>double\<close> that a cell can hold is finite, and is
  represented by the real number it denotes. The arithmetic of the machine on them (with
  its rounding, overflow and the results \<open>\<plusminus>\<infinity>\<close> and \<open>NaN\<close>) is not fixed here: it is a
  parameter of the evaluation, see \<open>arithmetic\<close> below.
\<close>

type_synonym double = real

text \<open>Modelled from the spec: the expression tree of \<^verbatim>\<open>FormulaAST.cpp\<close> (missing), section 4.1:
  arithmetic operators \<open>+ - * /\<close>, unary \<open>+/-\<close>, cell references and number literals.\<close>

datatype BinaryOp = Add | Subtract | Multiply | Divide

datatype UnaryOp = UnaryPlus | UnaryMinus

datatype Expr =
    NumberExpr double
  | CellExpr Position
  | UnaryOpExpr UnaryOp Expr
  | BinaryOpExpr BinaryOp Expr Expr

text \<open>
  A \<open>FormulaAST\<close> as \<^verbatim>\<open>FormulaAST.h\<close> declares it: the root expression, the list
  \<open>cells_\<close> that \<open>GetCells\<close> returns, and the text that \<open>PrintFormula\<close> writes
  (the printer is in the missing \<^verbatim>\<open>FormulaAST.cpp\<close>, so its output is kept with the tree).
\<close>

record FormulaAST =
  root_expr :: Expr
  GetCells :: "Position list"
  PrintFormula :: string

text \<open>\<^verbatim>\<open>std::set<Position>::insert\<close>: the set is the strictly ascending list of its
  elements; two elements neither of which is less than the other are the same key.\<close>

fun set_insert :: "Position \<Rightarrow> Position list \<Rightarrow> Position list" where
  "set_insert p [] = [p]"
| "set_insert p (q # qs) =
     (if Position_less p q then p # q # qs
      else if Position_less q p then q # set_insert p qs
      else q # qs)"

text \<open>The loop of \<open>Formula::GetReferencedCells\<close> with the set built so far.\<close>

fun collect_cells :: "Position list \<Rightarrow> Position list \<Rightarrow> Position list" where
  "collect_cells [] cells = cells"
| "collect_cells (cell # rest) cells =
     (if IsValid cell then collect_cells rest (set_insert cell cells)
      else collect_cells rest cells)"

definition Formula_GetReferencedCells :: "FormulaAST \<Rightarrow> Position list" where
  "Formula_GetReferencedCells ast = collect_cells (GetCells ast) []"


section \<open>Outcomes\<close>

text \<open>
  What a call can end with besides returning: one of the C++ exceptions (a \<open>FormulaError\<close>
  is thrown as an exception inside \<open>Formula::Evaluate\<close>), a dereference of a null or
  dangling \<^verbatim>\<open>Cell*\<close> (undefined behaviour in C++), or the recursion bound of the model being
  used up. The state reached so far is returned next to the outcome.
\<close>

datatype thrown =
    InvalidPositionException
  | FormulaException
  | CircularDependencyException
  | FormulaErrorThrown FormulaError

datatype abort = Throw thrown | NullDeref | OutOfFuel

type_synonym 'a result = "abort + 'a"

fun for_each :: "'a list \<Rightarrow> ('a \<Rightarrow> 's \<Rightarrow> unit result \<times> 's) \<Rightarrow> 's \<Rightarrow> unit result \<times> 's" where
  "for_each [] body s = (Inr (), s)"
| "for_each (x # xs) body s =
     (case body x s of
        (Inr u, s1) \<Rightarrow> for_each xs body s1
      | (Inl a, s1) \<Rightarrow> (Inl a, s1))"

lemma for_each_cong [fundef_cong]:
  "xs = ys \<Longrightarrow> s = t \<Longrightarrow> (\<And>x s. x \<in> set ys \<Longrightarrow> f x s = g x s)
   \<Longrightarrow> for_each xs f s = for_each ys g t"
  by (induction ys arbitrary: xs s t) (auto split: prod.splits sum.splits)

section \<open>Cells\<close>

text \<open>\<open>CellInterface::Value\<close> and \<open>FormulaInterface::Value\<close>, the two variants.\<close>

datatype CellValue = Str string | Number double | Error FormulaError

datatype FormulaValue = Computed double | Failed FormulaError

text \<open>The three implementations of \<open>Cell::Impl\<close>; a \<open>FormulaImpl\<close> holds its formula and
  the \<open>cache_\<close>.\<close>

datatype Impl = EmptyImpl | TextImpl string | FormulaImpl FormulaAST "FormulaValue option"

text \<open>Modelled from the spec: the two signs of \<^verbatim>\<open>common.h\<close> (missing), \<open>=\<close> and the apostrophe.\<close>

definition FORMULA_SIGN :: char where
  "FORMULA_SIGN = CHR ''=''"

definition ESCAPE_SIGN :: char where
  "ESCAPE_SIGN = CHR 0x27"

fun Impl_GetText :: "Impl \<Rightarrow> string" where
  "Impl_GetText EmptyImpl = []"
| "Impl_GetText (TextImpl t) = t"
| "Impl_GetText (FormulaImpl f c) = FORMULA_SIGN # PrintFormula f"

fun Impl_GetReferencedCells :: "Impl \<Rightarrow> Position list" where
  "Impl_GetReferencedCells (FormulaImpl f c) = Formula_GetReferencedCells f"
| "Impl_GetReferencedCells i = []"

fun Impl_HasCache :: "Impl \<Rightarrow> bool" where
  "Impl_HasCache (FormulaImpl f c) = (c \<noteq> None)"
| "Impl_HasCache i = True"

fun Impl_ResetCache :: "Impl \<Rightarrow> Impl" where
  "Impl_ResetCache (FormulaImpl f c) = FormulaImpl f None"
| "Impl_ResetCache i = i"

text \<open>
  A \<^verbatim>\<open>Cell*\<close> is represented by the position of the grid slot whose \<^verbatim>\<open>unique_ptr\<close> owns
  the cell (a cell never moves to another slot), \<^verbatim>\<open>nullptr\<close> by \<open>None\<close>. The two
  \<^verbatim>\<open>unordered_set<Cell*>\<close> are duplicate-free lists, iterated front to back. The field
  \<open>pos_\<close> is never assigned by the code; it keeps the default \<open>Position\<close>.
\<close>

type_synonym CellPtr = "Position option"

record Cell =
  impl :: Impl
  calculated_cells :: "Position list"
  using_cells :: "Position list"
  pos0 :: Position

definition new_Cell :: Cell where
  "new_Cell = \<lparr>impl = EmptyImpl, calculated_cells = [], using_cells = [], pos0 = Position 0 0\<rparr>"

definition uset_insert :: "'a \<Rightarrow> 'a list \<Rightarrow> 'a list" where
  "uset_insert x xs = (if x \<in> set xs then xs else xs @ [x])"

definition uset_erase :: "'a \<Rightarrow> 'a list \<Rightarrow> 'a list" where
  "uset_erase x xs = removeAll x xs"

definition Cell_GetText :: "Cell \<Rightarrow> string" where
  "Cell_GetText c = Impl_GetText (impl c)"

definition Cell_GetReferencedCells :: "Cell \<Rightarrow> Position list" where
  "Cell_GetReferencedCells c = Impl_GetReferencedCells (impl c)"

definition IsReferenced :: "Cell \<Rightarrow> bool" where
  "IsReferenced c \<longleftrightarrow> calculated_cells c \<noteq> []"

section \<open>The sheet\<close>

text \<open>\<^verbatim>\<open>std::vector<std::vector<std::unique_ptr<Cell>>> cells_\<close>: rows of slots, each slot
  empty or owning a cell.\<close>

type_synonym Sheet = "Cell option list list"

definition in_extent :: "Sheet \<Rightarrow> Position \<Rightarrow> bool" where
  "in_extent sh pos \<longleftrightarrow>
     row pos < int (length sh) \<and> col pos < int (length (sh ! nat (row pos)))"

definition slot :: "Sheet \<Rightarrow> Position \<Rightarrow> Cell option" where
  "slot sh pos = sh ! nat (row pos) ! nat (col pos)"

text \<open>\<^verbatim>\<open>cells_[pos.row][pos.col].get()\<close>\<close>

definition slot_get :: "Sheet \<Rightarrow> Position \<Rightarrow> CellPtr" where
  "slot_get sh pos = (case slot sh pos of None \<Rightarrow> None | Some c \<Rightarrow> Some pos)"

text \<open>Following a non-null pointer: the cell it points to, \<open>None\<close> when the pointer dangles.\<close>

definition deref :: "Sheet \<Rightarrow> Position \<Rightarrow> Cell option" where
  "deref sh p = (if 0 \<le> row p \<and> 0 \<le> col p \<and> in_extent sh p then slot sh p else None)"

text \<open>Writing a slot that is inside the extent.\<close>

definition store :: "Sheet \<Rightarrow> Position \<Rightarrow> Cell option \<Rightarrow> Sheet" where
  "store sh p c = sh[nat (row p) := (sh ! nat (row p))[nat (col p) := c]]"

definition resize :: "nat \<Rightarrow> 'a \<Rightarrow> 'a list \<Rightarrow> 'a list" where
  "resize n d xs = take n xs @ replicate (n - length xs) d"

definition Sheet_GetCell :: "Sheet \<Rightarrow> Position \<Rightarrow> CellPtr result" where
  "Sheet_GetCell sh pos =
     (if IsValid pos then
        (if in_extent sh pos then Inr (slot_get sh pos) else Inr None)
      else Inl (Throw InvalidPositionException))"

definition Sheet_GetCell_const :: "Sheet \<Rightarrow> Position \<Rightarrow> CellPtr result" where
  "Sheet_GetCell_const sh pos =
     (if IsValid pos then
        (if in_extent sh pos then
           (case slot sh pos of
              None \<Rightarrow> Inr None
            | Some c \<Rightarrow> if Cell_GetText c = [] then Inr None else Inr (slot_get sh pos))
         else Inr None)
      else Inl (Throw InvalidPositionException))"

definition GetConcreteCell :: "Sheet \<Rightarrow> Position \<Rightarrow> CellPtr result" where
  "GetConcreteCell sh pos =
     (if IsValid pos then
        (if in_extent sh pos then Inr (slot_get sh pos) else Inr None)
      else Inl (Throw InvalidPositionException))"

subsection \<open>Printable size\<close>

text \<open>Modelled from the spec: \<open>Size\<close> of \<^verbatim>\<open>common.h\<close> (missing), two \<^verbatim>\<open>int\<close>s that start at 0.\<close>

record Size =
  rows :: int
  cols :: int

text \<open>The inner loop of \<open>GetPrintableSize\<close>: \<open>n\<close> columns are still to be visited, from
  \<open>n - 1\<close> down to \<open>0\<close>.\<close>

fun scan_row :: "Cell option list \<Rightarrow> nat \<Rightarrow> nat \<Rightarrow> Size \<Rightarrow> Size" where
  "scan_row cs r 0 sz = sz"
| "scan_row cs r (Suc c) sz =
     (case cs ! c of
        Some cell \<Rightarrow>
          if Cell_GetText cell = [] then scan_row cs r c sz
          else sz\<lparr>rows := max (rows sz) (int r + 1), cols := max (cols sz) (int c + 1)\<rparr>
      | None \<Rightarrow> scan_row cs r c sz)"

definition GetPrintableSize :: "Sheet \<Rightarrow> Size" where
  "GetPrintableSize sh =
     fold (\<lambda>r sz. scan_row (sh ! r) r (length (sh ! r)) sz) [0..<length sh]
       \<lparr>rows = 0, cols = 0\<rparr>"

subsection \<open>Cache invalidation\<close>

text \<open>
  \<open>Cell::ResetCache\<close>. The recursion follows \<open>calculated_cells_\<close> and stops only at a
  formula without cache, so on an arbitrary heap it need not end; \<open>fuel\<close> bounds its depth.
\<close>

fun ResetCache :: "nat \<Rightarrow> Position \<Rightarrow> bool \<Rightarrow> Sheet \<Rightarrow> unit result \<times> Sheet" where
  "ResetCache 0 this force sh = (Inl OutOfFuel, sh)"
| "ResetCache (Suc n) this force sh =
     (case deref sh this of
        None \<Rightarrow> (Inl NullDeref, sh)
      | Some c \<Rightarrow>
          if Impl_HasCache (impl c) \<or> force then
            for_each (calculated_cells c) (\<lambda>dependent s. ResetCache n dependent False s)
              (store sh this (Some (c\<lparr>impl := Impl_ResetCache (impl c)\<rparr>)))
          else (Inr (), sh))"

subsection \<open>Cycle check\<close>

text \<open>All values a \<^verbatim>\<open>Cell*\<close> obtained from the grid can have.\<close>

definition all_ptrs :: "Sheet \<Rightarrow> CellPtr set" where
  "all_ptrs sh =
     insert None (Some ` (\<Union>r < length sh. (\<lambda>c. Position (int r) (int c)) ` {..< length (sh ! r)}))"

function HasCircularDependency ::
    "Sheet \<Rightarrow> CellPtr \<Rightarrow> CellPtr set \<Rightarrow> Position \<Rightarrow> (bool \<times> CellPtr set) result"
  and HasCircularDependency_loop ::
    "Sheet \<Rightarrow> Position list \<Rightarrow> CellPtr set \<Rightarrow> Position \<Rightarrow> (bool \<times> CellPtr set) result"
where
  "HasCircularDependency sh cell visitedPos pos_const =
     (case cell of
        None \<Rightarrow> Inl NullDeref
      | Some a \<Rightarrow>
          (case deref sh a of
             None \<Rightarrow> Inl NullDeref
           | Some c \<Rightarrow>
               HasCircularDependency_loop sh (Cell_GetReferencedCells c) visitedPos pos_const))"
| "HasCircularDependency_loop sh [] visitedPos pos_const = Inr (False, visitedPos)"
| "HasCircularDependency_loop sh (dependentPos # rest) visitedPos pos_const =
     (case GetConcreteCell sh dependentPos of
        Inl a \<Rightarrow> Inl a
      | Inr ref_cell \<Rightarrow>
          if pos_const = dependentPos then Inr (True, visitedPos)
          else if ref_cell \<notin> visitedPos then
            (case HasCircularDependency sh ref_cell (insert ref_cell visitedPos) pos_const of
               Inl a \<Rightarrow> Inl a
             | Inr (found, visited1) \<Rightarrow>
                 if found then Inr (True, visited1)
                 else HasCircularDependency_loop sh rest visited1 pos_const)
          else HasCircularDependency_loop sh rest visitedPos pos_const)"
  by pat_completeness auto



lemma finite_all_ptrs: "finite (all_ptrs sh)"
  by (simp add: all_ptrs_def)

lemma GetConcreteCell_in_all_ptrs: "GetConcreteCell sh p = Inr ref_cell \<Longrightarrow> ref_cell \<in> all_ptrs sh"
proof -
  assume h: "GetConcreteCell sh p = Inr ref_cell"
  show ?thesis
  proof (cases ref_cell)
    case None
    then show ?thesis by (simp add: all_ptrs_def)
  next
    case (Some q)
    with h have v: "IsValid p" and e: "in_extent sh p" and q: "q = p"
      by (auto simp: GetConcreteCell_def slot_get_def split: if_splits option.splits)
    from v e have "nat (row p) < length sh" "nat (col p) < length (sh ! nat (row p))"
      by (auto simp: IsValid_def in_extent_def)
    moreover from v have "p = Position (int (nat (row p))) (int (nat (col p)))"
      by (cases p) (simp add: IsValid_def)
    ultimately have "p \<in> (\<Union>r < length sh. (\<lambda>c. Position (int r) (int c)) ` {..< length (sh ! r)})"
      by blast
    with Some q show ?thesis by (simp add: all_ptrs_def)
  qed
qed

lemma HasCircularDependency_visited_mono:
  "HasCircularDependency_HasCircularDependency_loop_dom (Inl (sh, cell, v, pc)) \<Longrightarrow>
     HasCircularDependency sh cell v pc = Inr (b, v') \<Longrightarrow> v \<subseteq> v'"
  "HasCircularDependency_HasCircularDependency_loop_dom (Inr (sh, ps, v, pc)) \<Longrightarrow>
     HasCircularDependency_loop sh ps v pc = Inr (b, v') \<Longrightarrow> v \<subseteq> v'"
proof (induct sh cell v pc and sh ps v pc arbitrary: b v' and b v'
    rule: HasCircularDependency_HasCircularDependency_loop.pinduct)
  case (1 sh cell visitedPos pos_const)
  then show ?case
    by (auto simp: HasCircularDependency.psimps split: option.splits)
next
  case (2 sh visitedPos pos_const)
  then show ?case
    by (auto simp: HasCircularDependency_loop.psimps)
next
  case (3 sh dependentPos rest visitedPos pos_const)
  note dom = 3(1) and IH1 = 3(2) and IH2 = 3(3) and IH3 = 3(4) and res = 3(5)
  note eq = HasCircularDependency_loop.psimps(2) [OF dom]
  show ?case
  proof (cases "GetConcreteCell sh dependentPos")
    case (Inl a)
    with res eq show ?thesis by simp
  next
    case (Inr ref_cell)
    show ?thesis
    proof (cases "pos_const = dependentPos")
      case True
      with res eq Inr show ?thesis by simp
    next
      case False
      show ?thesis
      proof (cases "ref_cell \<in> visitedPos")
        case True
        with res eq Inr False have "HasCircularDependency_loop sh rest visitedPos pos_const = Inr (b, v')"
          by simp
        from IH3 [OF Inr False _ this] True show ?thesis by simp
      next
        case nv: False
        show ?thesis
        proof (cases "HasCircularDependency sh ref_cell (insert ref_cell visitedPos) pos_const")
          case (Inl a)
          with res eq Inr False nv show ?thesis by simp
        next
          case r: (Inr fv)
          obtain found visited1 where fv: "fv = (found, visited1)" by (cases fv)
          from IH1 [OF Inr False nv] r fv have m1: "insert ref_cell visitedPos \<subseteq> visited1"
            by simp
          show ?thesis
          proof (cases found)
            case True
            with res eq Inr False nv r fv have "v' = visited1" by simp
            with m1 show ?thesis by blast
          next
            case nf: False
            with res eq Inr False nv r fv
            have "HasCircularDependency_loop sh rest visited1 pos_const = Inr (b, v')" by simp
            from IH2 [OF Inr False nv r [unfolded fv] _ nf this] m1 show ?thesis
              by auto
          qed
        qed
      qed
    qed
  qed
qed


lemma card_Diff_insert_less:
  "finite S \<Longrightarrow> x \<in> S \<Longrightarrow> x \<notin> v \<Longrightarrow> card (S - insert x v) < card (S - v)"
  by (rule psubset_card_mono) auto

lemma card_Diff_mono: "finite S \<Longrightarrow> v \<subseteq> v' \<Longrightarrow> card (S - v') \<le> card (S - v)"
  by (rule card_mono) auto

termination HasCircularDependency
proof (relation "inv_image (less_than <*lex*> less_than <*lex*> less_than)
    (\<lambda>x. case x of
       Inl (sh, cell, v, pc) \<Rightarrow> (card (all_ptrs sh - v), Suc 0, 0)
     | Inr (sh, ps, v, pc) \<Rightarrow> (card (all_ptrs sh - v), 0, length ps))", goal_cases)
  case 1
  show ?case by (intro wf_inv_image wf_lex_prod wf_less_than)
next
  case (2 sh cell visitedPos pos_const a c)
  then show ?case by simp
next
  case (3 sh dependentPos rest visitedPos pos_const ref_cell)
  from card_Diff_insert_less [OF finite_all_ptrs GetConcreteCell_in_all_ptrs [OF 3(1)] 3(3)]
  show ?case by simp
next
  case (4 sh dependentPos rest visitedPos pos_const ref_cell xa x y)
  then have "insert ref_cell visitedPos \<subseteq> y"
    using HasCircularDependency_visited_mono(1) [of sh ref_cell "insert ref_cell visitedPos" pos_const x y]
    by simp
  then have "visitedPos \<subseteq> y" by blast
  from card_Diff_mono [OF finite_all_ptrs this, of sh]
  show ?case by auto
next
  case (5 sh dependentPos rest visitedPos pos_const ref_cell)
  then show ?case by simp
qed

declare HasCircularDependency.simps [simp del]


text \<open>\<open>Cell::CheckCircularDependencies\<close>, its loop over the candidate's referenced cells.\<close>

fun CheckCircularDependencies_loop ::
    "Sheet \<Rightarrow> Position list \<Rightarrow> CellPtr set \<Rightarrow> Position \<Rightarrow> bool result" where
  "CheckCircularDependencies_loop sh [] visitedPos pos = Inr False"
| "CheckCircularDependencies_loop sh (position # rest) visitedPos pos =
     (if position = pos then Inr True
      else
        (case GetConcreteCell sh position of
           Inl a \<Rightarrow> Inl a
         | Inr ref_cell \<Rightarrow>
             (case HasCircularDependency sh ref_cell (insert ref_cell visitedPos) pos of
                Inl a \<Rightarrow> Inl a
              | Inr (found, visited1) \<Rightarrow>
                  if found then Inr True
                  else CheckCircularDependencies_loop sh rest visited1 pos)))"

definition CheckCircularDependencies :: "Sheet \<Rightarrow> Impl \<Rightarrow> Position \<Rightarrow> bool result" where
  "CheckCircularDependencies sh new_impl pos =
     CheckCircularDependencies_loop sh (Impl_GetReferencedCells new_impl) {} pos"

subsection \<open>Setting and clearing a cell\<close>

text \<open>\<^verbatim>\<open>using_cells_.insert(used); used->calculated_cells_.insert(this);\<close>\<close>

definition link :: "Position \<Rightarrow> Position \<Rightarrow> Sheet \<Rightarrow> unit result \<times> Sheet" where
  "link this used sh =
     (case deref sh this of
        None \<Rightarrow> (Inl NullDeref, sh)
      | Some c \<Rightarrow>
          let sh1 = store sh this (Some (c\<lparr>using_cells := uset_insert used (using_cells c)\<rparr>)) in
          (case deref sh1 used of
             None \<Rightarrow> (Inl NullDeref, sh1)
           | Some u \<Rightarrow>
               (Inr (),
                store sh1 used (Some (u\<lparr>calculated_cells := uset_insert this (calculated_cells u)\<rparr>)))))"

text \<open>\<^verbatim>\<open>used->calculated_cells_.erase(this);\<close>\<close>

definition unlink :: "Position \<Rightarrow> Position \<Rightarrow> Sheet \<Rightarrow> unit result \<times> Sheet" where
  "unlink this used sh =
     (case deref sh used of
        None \<Rightarrow> (Inl NullDeref, sh)
      | Some u \<Rightarrow>
          (Inr (),
           store sh used (Some (u\<lparr>calculated_cells := uset_erase this (calculated_cells u)\<rparr>))))"

text \<open>
  The formula constructor: \<open>ParseFormulaAST\<close> is the parser, which is not among the
  sources and is a parameter \<open>pf\<close> of the model; \<open>None\<close> is its \<open>ParsingError\<close>, which
  \<open>Formula::Formula\<close> turns into a \<open>FormulaException\<close>.
\<close>

type_synonym parser = "string \<Rightarrow> FormulaAST option"

text \<open>
  \<open>Sheet::SetCell\<close> and \<open>Cell::Set\<close> call each other: \<open>Set\<close> materialises a missing
  referenced cell with \<open>SetCell(p, "")\<close>. \<open>this\<close> is the cell \<open>Set\<close> is called on,
  \<open>fuel\<close> is handed to \<open>ResetCache\<close>.
\<close>

function Sheet_SetCell :: "parser \<Rightarrow> nat \<Rightarrow> Position \<Rightarrow> string \<Rightarrow> Sheet \<Rightarrow> unit result \<times> Sheet"
  and Cell_Set :: "parser \<Rightarrow> nat \<Rightarrow> Position \<Rightarrow> string \<Rightarrow> Position \<Rightarrow> Sheet \<Rightarrow> unit result \<times> Sheet"
where
  "Sheet_SetCell pf fuel pos text sh =
     (if IsValid pos then
        let cells1 = resize (nat (max (row pos + 1) (int (length sh)))) [] sh;
            cells2 = cells1[nat (row pos) :=
                       resize (nat (max (col pos + 1) (int (length (cells1 ! nat (row pos)))))) None
                         (cells1 ! nat (row pos))];
            cells3 = (if slot cells2 pos = None then store cells2 pos (Some new_Cell) else cells2)
        in Cell_Set pf fuel pos text pos cells3
      else (Inl (Throw InvalidPositionException), sh))"
| "Cell_Set pf fuel this text pos sh =
     (case
        (if text = [] then (Inr EmptyImpl, sh)
         else if length text \<ge> 2 \<and> hd text = FORMULA_SIGN then
           (case pf (tl text) of
              None \<Rightarrow> (Inl (Throw FormulaException), sh)
            | Some f \<Rightarrow>
                (case for_each (Impl_GetReferencedCells (FormulaImpl f None))
                        (\<lambda>p s. if IsValid p \<and> Sheet_GetCell s p = Inr None
                               then Sheet_SetCell pf fuel p [] s else (Inr (), s)) sh of
                   (Inl a, sh1) \<Rightarrow> (Inl a, sh1)
                 | (Inr u, sh1) \<Rightarrow> (Inr (FormulaImpl f None), sh1)))
         else (Inr (TextImpl text), sh))
      of
        (Inl a, sh0) \<Rightarrow> (Inl a, sh0)
      | (Inr new_impl, sh0) \<Rightarrow>
          (case CheckCircularDependencies sh0 new_impl pos of
             Inl a \<Rightarrow> (Inl a, sh0)
           | Inr True \<Rightarrow> (Inl (Throw CircularDependencyException), sh0)
           | Inr False \<Rightarrow>
               (case deref sh0 this of
                  None \<Rightarrow> (Inl NullDeref, sh0)
                | Some c \<Rightarrow>
                    (case for_each (using_cells c) (unlink this)
                            (store sh0 this (Some (c\<lparr>impl := new_impl\<rparr>))) of
                       (Inl a, sh2) \<Rightarrow> (Inl a, sh2)
                     | (Inr u, sh2) \<Rightarrow>
                         (case deref sh2 this of
                            None \<Rightarrow> (Inl NullDeref, sh2)
                          | Some c2 \<Rightarrow>
                              (case for_each (Impl_GetReferencedCells new_impl)
                                      (\<lambda>p s.
                                         case GetConcreteCell s p of
                                           Inl a \<Rightarrow> (Inl a, s)
                                         | Inr (Some used) \<Rightarrow> link this used s
                                         | Inr None \<Rightarrow>
                                             (case Sheet_SetCell pf fuel p [] s of
                                                (Inl a, s1) \<Rightarrow> (Inl a, s1)
                                              | (Inr u, s1) \<Rightarrow>
                                                  (case GetConcreteCell s1 p of
                                                     Inl a \<Rightarrow> (Inl a, s1)
                                                   | Inr None \<Rightarrow> (Inl NullDeref, s1)
                                                   | Inr (Some used) \<Rightarrow> link this used s1)))
                                      (store sh2 this (Some (c2\<lparr>using_cells := []\<rparr>))) of
                                 (Inl a, sh4) \<Rightarrow> (Inl a, sh4)
                               | (Inr u, sh4) \<Rightarrow> ResetCache fuel this True sh4))))))"
  by pat_completeness auto
termination
proof (relation "measure (\<lambda>x. case x of
          Inl (pf, fuel, pos, text, sh) \<Rightarrow> (if text = [] then 1 else 3)
        | Inr (pf, fuel, this, text, pos, sh) \<Rightarrow> (if text = [] then 0 else 2))", goal_cases)
  case 1
  show ?case by simp
next
  case 2
  then show ?case by simp
next
  case 3
  then show ?case by (simp split: if_splits)
next
  case 4
  then show ?case by (auto split: if_splits option.splits prod.splits sum.splits)
qed

declare Sheet_SetCell.simps [simp del] Cell_Set.simps [simp del]


definition Cell_Clear :: "parser \<Rightarrow> nat \<Rightarrow> Position \<Rightarrow> Sheet \<Rightarrow> unit result \<times> Sheet" where
  "Cell_Clear pf fuel this sh =
     (case deref sh this of
        None \<Rightarrow> (Inl NullDeref, sh)
      | Some c \<Rightarrow> Cell_Set pf fuel this [] (pos0 c) sh)"

definition Sheet_ClearCell :: "parser \<Rightarrow> nat \<Rightarrow> Position \<Rightarrow> Sheet \<Rightarrow> unit result \<times> Sheet" where
  "Sheet_ClearCell pf fuel pos sh =
     (if IsValid pos then
        (if in_extent sh pos then
           (case slot sh pos of
              None \<Rightarrow> (Inr (), sh)
            | Some c \<Rightarrow>
                (case Cell_Clear pf fuel pos sh of
                   (Inl a, sh1) \<Rightarrow> (Inl a, sh1)
                 | (Inr u, sh1) \<Rightarrow>
                     (case slot sh1 pos of
                        None \<Rightarrow> (Inl NullDeref, sh1)
                      | Some c1 \<Rightarrow>
                          if \<not> IsReferenced c1 then (Inr (), store sh1 pos None)
                          else (Inr (), sh1))))
         else (Inr (), sh))
      else (Inl (Throw InvalidPositionException), sh))"

subsection \<open>Values\<close>

text \<open>Modelled from the spec: \<open>FormulaAST::Execute\<close> (\<^verbatim>\<open>FormulaAST.cpp\<close> is missing), section 4.1:
  operands are evaluated left to right, an arithmetic step without a finite result raises
  \<open>Div0\<close>, and whatever the callback \<open>args\<close> throws leaves \<open>Execute\<close> unchanged. The callback
  reads cells, which may fill their caches, so the state is passed along.

  The operation of the machine on two \<^verbatim>\<open>double\<close>s is the parameter \<open>fp\<close>: \<open>fp op a b\<close> is the
  rounded result of \<open>a op b\<close> when that result is finite, and \<open>None\<close> when it is \<open>\<plusminus>\<infinity>\<close> or
  \<open>NaN\<close> (a zero divisor, an overflow).\<close>

type_synonym arithmetic = "BinaryOp \<Rightarrow> double \<Rightarrow> double \<Rightarrow> double option"

definition apply_BinaryOp :: "arithmetic \<Rightarrow> BinaryOp \<Rightarrow> double \<Rightarrow> double \<Rightarrow> double result" where
  "apply_BinaryOp fp op a b =
     (case fp op a b of
        Some v \<Rightarrow> Inr v
      | None \<Rightarrow> Inl (Throw (FormulaErrorThrown (FormulaError Div0))))"

primrec Execute ::
    "arithmetic \<Rightarrow> (Position \<Rightarrow> 's \<Rightarrow> double result \<times> 's) \<Rightarrow> Expr \<Rightarrow> 's
     \<Rightarrow> double result \<times> 's" where
  "Execute fp args (NumberExpr d) s = (Inr d, s)"
| "Execute fp args (CellExpr p) s = args p s"
| "Execute fp args (UnaryOpExpr op e) s =
     (case Execute fp args e s of
        (Inl a, s1) \<Rightarrow> (Inl a, s1)
      | (Inr v, s1) \<Rightarrow> (Inr (case op of UnaryPlus \<Rightarrow> v | UnaryMinus \<Rightarrow> - v), s1))"
| "Execute fp args (BinaryOpExpr op l r) s =
     (case Execute fp args l s of
        (Inl a, s1) \<Rightarrow> (Inl a, s1)
      | (Inr x, s1) \<Rightarrow>
          (case Execute fp args r s1 of
             (Inl a, s2) \<Rightarrow> (Inl a, s2)
           | (Inr y, s2) \<Rightarrow> (apply_BinaryOp fp op x y, s2)))"

text \<open>
  The callback \<open>params\<close> that \<open>Formula::Evaluate\<close> builds. \<open>get_value\<close> is
  \<open>cell->GetValue()\<close>; \<open>read_double\<close> is the test \<^verbatim>\<open>input >> digit && input.eof()\<close> of the
  C++ stream library on the string, with the number read.
\<close>

type_synonym reader = "string \<Rightarrow> double option"

definition params ::
    "reader \<Rightarrow> (Position \<Rightarrow> Sheet \<Rightarrow> CellValue result \<times> Sheet) \<Rightarrow> Position \<Rightarrow> Sheet
     \<Rightarrow> double result \<times> Sheet" where
  "params read_double get_value pos sh =
     (if \<not> IsValid pos then (Inl (Throw (FormulaErrorThrown (FormulaError Ref))), sh)
      else
        (case Sheet_GetCell_const sh pos of
           Inl a \<Rightarrow> (Inl a, sh)
         | Inr None \<Rightarrow> (Inr 0, sh)
         | Inr (Some cell) \<Rightarrow>
             (case get_value cell sh of
                (Inl a, sh1) \<Rightarrow> (Inl a, sh1)
              | (Inr (Number d), sh1) \<Rightarrow> (Inr d, sh1)
              | (Inr (Str strValue), sh1) \<Rightarrow>
                  if strValue = [] then (Inr 0, sh1)
                  else
                    (case read_double strValue of
                       Some digit \<Rightarrow> (Inr digit, sh1)
                     | None \<Rightarrow> (Inl (Throw (FormulaErrorThrown (FormulaError Value))), sh1))
              | (Inr (Error e), sh1) \<Rightarrow> (Inl (Throw (FormulaErrorThrown e)), sh1))))"

definition Formula_Evaluate ::
    "arithmetic \<Rightarrow> reader \<Rightarrow> (Position \<Rightarrow> Sheet \<Rightarrow> CellValue result \<times> Sheet) \<Rightarrow> FormulaAST
     \<Rightarrow> Sheet \<Rightarrow> FormulaValue result \<times> Sheet" where
  "Formula_Evaluate fp read_double get_value f sh =
     (case Execute fp (params read_double get_value) (root_expr f) sh of
        (Inr d, sh1) \<Rightarrow> (Inr (Computed d), sh1)
      | (Inl (Throw (FormulaErrorThrown evaluate_error)), sh1) \<Rightarrow> (Inr (Failed evaluate_error), sh1)
      | (Inl a, sh1) \<Rightarrow> (Inl a, sh1))"

text \<open>\<^verbatim>\<open>std::visit([](auto& helper){return Value(helper);}, *cache_)\<close>\<close>

fun to_Value :: "FormulaValue \<Rightarrow> CellValue" where
  "to_Value (Computed d) = Number d"
| "to_Value (Failed e) = Error e"

text \<open>\<^verbatim>\<open>cache_ = ...\<close> in the formula implementation of the cell \<open>this\<close>.\<close>

definition set_cache :: "Position \<Rightarrow> FormulaValue \<Rightarrow> Sheet \<Rightarrow> Sheet" where
  "set_cache this v sh =
     (case deref sh this of
        Some c \<Rightarrow>
          (case impl c of
             FormulaImpl f old \<Rightarrow> store sh this (Some (c\<lparr>impl := FormulaImpl f (Some v)\<rparr>))
           | _ \<Rightarrow> sh)
      | None \<Rightarrow> sh)"

text \<open>
  \<open>Cell::GetValue\<close> with the three \<open>Impl::GetValue\<close>. A formula without cache evaluates
  its expression, which reads other cells with \<open>GetValue\<close>; the recursion ends when the
  references have no cycle, and \<open>fuel\<close> bounds its depth.
\<close>

fun Cell_GetValue ::
    "arithmetic \<Rightarrow> reader \<Rightarrow> nat \<Rightarrow> Position \<Rightarrow> Sheet \<Rightarrow> CellValue result \<times> Sheet" where
  "Cell_GetValue fp rd 0 this sh = (Inl OutOfFuel, sh)"
| "Cell_GetValue fp rd (Suc n) this sh =
     (case deref sh this of
        None \<Rightarrow> (Inl NullDeref, sh)
      | Some c \<Rightarrow>
          (case impl c of
             EmptyImpl \<Rightarrow> (Inr (Str []), sh)
           | TextImpl t \<Rightarrow>
               if t = [] then (Inl (Throw FormulaException), sh)
               else if hd t = ESCAPE_SIGN then (Inr (Str (tl t)), sh)
               else (Inr (Str t), sh)
           | FormulaImpl f cache \<Rightarrow>
               (case cache of
                  Some v \<Rightarrow> (Inr (to_Value v), sh)
                | None \<Rightarrow>
                    (case Formula_Evaluate fp rd (Cell_GetValue fp rd n) f sh of
                       (Inl a, sh1) \<Rightarrow> (Inl a, sh1)
                     | (Inr v, sh1) \<Rightarrow> (Inr (to_Value v), set_cache this v sh1)))))"


section \<open>Definitions used in the proofs\<close>

definition A1 :: Position where "A1 = Position 0 0"
definition B1 :: Position where "B1 = Position 0 1"

definition demo_row :: "Cell option list" where
  "demo_row = [Some (new_Cell\<lparr>impl := TextImpl ''x''\<rparr>), Some new_Cell, None]"

definition sample_ast :: FormulaAST where
  "sample_ast = \<lparr>root_expr = CellExpr (Position 0 0), GetCells = [Position 0 0], PrintFormula = ''A1''\<rparr>"

definition sample_row :: "Cell option list" where
  "sample_row =
     [Some (new_Cell\<lparr>impl := TextImpl ''foo''\<rparr>),
      Some (new_Cell\<lparr>impl := TextImpl ''3.14''\<rparr>),
      Some (new_Cell\<lparr>impl := TextImpl [ESCAPE_SIGN]\<rparr>),
      Some (new_Cell\<lparr>impl := FormulaImpl sample_ast (Some (Computed 2))\<rparr>),
      Some (new_Cell\<lparr>impl := FormulaImpl sample_ast (Some (Failed (FormulaError Div0)))\<rparr>),
      None]"

definition sample_reader :: reader where
  "sample_reader s = (if s = ''3.14'' then Some (314 / 100) else None)"

text \<open>A sample arithmetic: the exact results, which are those of the machine on small
  integers, and no result for a zero divisor.\<close>

definition demo_arith :: arithmetic where
  "demo_arith op a b =
     (case op of
        Add \<Rightarrow> Some (a + b)
      | Subtract \<Rightarrow> Some (a - b)
      | Multiply \<Rightarrow> Some (a * b)
      | Divide \<Rightarrow> if b = 0 then None else Some (a / b))"

text \<open>The grid that \<open>SetCell\<close> works on after its two \<open>resize\<close> calls and the
  construction of a missing cell.\<close>

definition grown :: "Sheet \<Rightarrow> Position \<Rightarrow> Sheet" where
  "grown sh pos =
     (let cells1 = resize (nat (max (row pos + 1) (int (length sh)))) [] sh
      in cells1[nat (row pos) :=
           resize (nat (max (col pos + 1) (int (length (cells1 ! nat (row pos)))))) None
             (cells1 ! nat (row pos))])"

definition materialised :: "Sheet \<Rightarrow> Position \<Rightarrow> Sheet" where
  "materialised sh pos =
     (if slot (grown sh pos) pos = None then store (grown sh pos) pos (Some new_Cell)
      else grown sh pos)"

text \<open>The body of the first loop of \<open>Cell::Set\<close>, which materialises a missing referenced
  cell, and of its last loop, which records one edge.\<close>

definition materialise_ref :: "parser \<Rightarrow> nat \<Rightarrow> Position \<Rightarrow> Sheet \<Rightarrow> unit result \<times> Sheet" where
  "materialise_ref pf fuel =
     (\<lambda>p s. if IsValid p \<and> Sheet_GetCell s p = Inr None
            then Sheet_SetCell pf fuel p [] s else (Inr (), s))"

definition add_edge :: "parser \<Rightarrow> nat \<Rightarrow> Position \<Rightarrow> Position \<Rightarrow> Sheet \<Rightarrow> unit result \<times> Sheet" where
  "add_edge pf fuel this =
     (\<lambda>p s.
        case GetConcreteCell s p of
          Inl a \<Rightarrow> (Inl a, s)
        | Inr (Some used) \<Rightarrow> link this used s
        | Inr None \<Rightarrow>
            (case Sheet_SetCell pf fuel p [] s of
               (Inl a, s1) \<Rightarrow> (Inl a, s1)
             | (Inr u, s1) \<Rightarrow>
                 (case GetConcreteCell s1 p of
                    Inl a \<Rightarrow> (Inl a, s1)
                  | Inr None \<Rightarrow> (Inl NullDeref, s1)
                  | Inr (Some used) \<Rightarrow> link this used s1)))"

text \<open>The candidate implementation that \<open>Cell::Set\<close> builds from the text, and what it
  does with it afterwards.\<close>

definition candidate :: "parser \<Rightarrow> nat \<Rightarrow> string \<Rightarrow> Sheet \<Rightarrow> Impl result \<times> Sheet" where
  "candidate pf fuel text sh =
     (if text = [] then (Inr EmptyImpl, sh)
      else if length text \<ge> 2 \<and> hd text = FORMULA_SIGN then
        (case pf (tl text) of
           None \<Rightarrow> (Inl (Throw FormulaException), sh)
         | Some f \<Rightarrow>
             (case for_each (Impl_GetReferencedCells (FormulaImpl f None)) (materialise_ref pf fuel) sh of
                (Inl a, sh1) \<Rightarrow> (Inl a, sh1)
              | (Inr u, sh1) \<Rightarrow> (Inr (FormulaImpl f None), sh1)))
      else (Inr (TextImpl text), sh))"

definition rewire :: "parser \<Rightarrow> nat \<Rightarrow> Position \<Rightarrow> Impl \<Rightarrow> Sheet \<Rightarrow> unit result \<times> Sheet" where
  "rewire pf fuel this new_impl sh0 =
     (case deref sh0 this of
        None \<Rightarrow> (Inl NullDeref, sh0)
      | Some c \<Rightarrow>
          (case for_each (using_cells c) (unlink this)
                  (store sh0 this (Some (c\<lparr>impl := new_impl\<rparr>))) of
             (Inl a, sh2) \<Rightarrow> (Inl a, sh2)
           | (Inr u, sh2) \<Rightarrow>
               (case deref sh2 this of
                  None \<Rightarrow> (Inl NullDeref, sh2)
                | Some c2 \<Rightarrow>
                    (case for_each (Impl_GetReferencedCells new_impl) (add_edge pf fuel this)
                            (store sh2 this (Some (c2\<lparr>using_cells := []\<rparr>))) of
                       (Inl a, sh4) \<Rightarrow> (Inl a, sh4)
                     | (Inr u, sh4) \<Rightarrow> ResetCache fuel this True sh4))))"

definition extends :: "Sheet \<Rightarrow> Sheet \<Rightarrow> bool" where
  "extends sh sh' \<longleftrightarrow>
     (\<forall>q. deref sh' q = deref sh q \<or> (deref sh q = None \<and> deref sh' q = Some new_Cell))"

definition ref_ast :: "Position \<Rightarrow> string \<Rightarrow> FormulaAST" where
  "ref_ast p name = \<lparr>root_expr = CellExpr p, GetCells = [p], PrintFormula = name\<rparr>"

definition C1 :: Position where "C1 = Position 0 2"
definition A2 :: Position where "A2 = Position 1 0"
definition B2 :: Position where "B2 = Position 1 1"

definition demo_parser :: parser where
  "demo_parser s =
     (if s = ''A1'' then Some (ref_ast A1 ''A1'')
      else if s = ''B1'' then Some (ref_ast B1 ''B1'')
      else if s = ''A2'' then Some (ref_ast A2 ''A2'')
      else if s = ''A1+B2'' then
        Some \<lparr>root_expr = BinaryOpExpr Add (CellExpr A1) (CellExpr B2), GetCells = [A1, B2],
              PrintFormula = ''A1+B2''\<rparr>
      else None)"

definition sheet_A1 :: Sheet where
  "sheet_A1 =
     [[Some \<lparr>impl = FormulaImpl (ref_ast B1 ''B1'') None, calculated_cells = [],
             using_cells = [B1], pos0 = Position 0 0\<rparr>,
       Some \<lparr>impl = EmptyImpl, calculated_cells = [A1], using_cells = [], pos0 = Position 0 0\<rparr>]]"

definition printable :: "Cell option list \<Rightarrow> nat \<Rightarrow> bool" where
  "printable cs c \<longleftrightarrow> (\<exists>cell. cs ! c = Some cell \<and> Cell_GetText cell \<noteq> [])"

definition covers :: "Sheet \<Rightarrow> nat \<Rightarrow> Size \<Rightarrow> bool" where
  "covers sh k sz \<longleftrightarrow>
     (\<forall>r<k. \<forall>c<length (sh ! r). printable (sh ! r) c \<longrightarrow> int r < rows sz \<and> int c < cols sz)
     \<and> (rows sz = 0 \<or> (\<exists>r<k. \<exists>c<length (sh ! r). printable (sh ! r) c \<and> rows sz = int r + 1))
     \<and> (cols sz = 0 \<or> (\<exists>r<k. \<exists>c<length (sh ! r). printable (sh ! r) c \<and> cols sz = int c + 1))
     \<and> 0 \<le> rows sz \<and> 0 \<le> cols sz"

text \<open>The edges as the cells record them: \<open>(A, B)\<close> is in \<open>uses_rel\<close> when the cell at A
  has B in \<open>using_cells_\<close>, and in \<open>used_by_rel\<close> when the cell at A has B in
  \<open>calculated_cells_\<close>.\<close>

definition uses_rel :: "Sheet \<Rightarrow> (Position \<times> Position) set" where
  "uses_rel sh = {(a, b). \<exists>c. deref sh a = Some c \<and> b \<in> set (using_cells c)}"

definition used_by_rel :: "Sheet \<Rightarrow> (Position \<times> Position) set" where
  "used_by_rel sh = {(a, b). \<exists>c. deref sh a = Some c \<and> b \<in> set (calculated_cells c)}"

text \<open>Every recorded edge has its mirror image in a cell that exists.\<close>

definition edges_ok :: "Sheet \<Rightarrow> bool" where
  "edges_ok sh \<longleftrightarrow> uses_rel sh = (used_by_rel sh)\<inverse>"

definition live :: "Sheet \<Rightarrow> Position set" where
  "live sh = {p. deref sh p \<noteq> None}"

text \<open>Cells keep their edges and their content; only caches may have been dropped or
  filled.\<close>

definition same_but_cache :: "Cell \<Rightarrow> Cell \<Rightarrow> bool" where
  "same_but_cache c c' \<longleftrightarrow>
     using_cells c' = using_cells c \<and> calculated_cells c' = calculated_cells c
     \<and> Impl_ResetCache (impl c') = Impl_ResetCache (impl c)"

definition same_edges :: "Sheet \<Rightarrow> Sheet \<Rightarrow> bool" where
  "same_edges sh sh' \<longleftrightarrow> (\<forall>q. rel_option same_but_cache (deref sh q) (deref sh' q))"

text \<open>Every cell keeps its implementation, cache included; cells that are new are empty.\<close>

definition impl_frame :: "Sheet \<Rightarrow> Sheet \<Rightarrow> bool" where
  "impl_frame sh sh' \<longleftrightarrow>
     (\<forall>q. map_option impl (deref sh' q) = map_option impl (deref sh q)
          \<or> (deref sh q = None \<and> map_option impl (deref sh' q) = Some EmptyImpl))"

text \<open>
  The sheet starts empty. A public operation takes it to the state it leaves behind when it
  returns or throws; \<open>GetValue\<close> is called on a cell that \<open>GetCell\<close> has returned.
\<close>

definition completed :: "'a result \<Rightarrow> bool" where
  "completed r \<longleftrightarrow> r \<noteq> Inl NullDeref \<and> r \<noteq> Inl OutOfFuel"

inductive reachable :: "parser \<Rightarrow> arithmetic \<Rightarrow> reader \<Rightarrow> Sheet \<Rightarrow> bool"
  for pf :: parser and fp :: arithmetic and rd :: reader where
  reachable_init: "reachable pf fp rd []"
| reachable_SetCell:
    "reachable pf fp rd sh \<Longrightarrow> Sheet_SetCell pf fuel pos text sh = (r, sh') \<Longrightarrow> completed r
     \<Longrightarrow> reachable pf fp rd sh'"
| reachable_ClearCell:
    "reachable pf fp rd sh \<Longrightarrow> Sheet_ClearCell pf fuel pos sh = (r, sh') \<Longrightarrow> completed r
     \<Longrightarrow> reachable pf fp rd sh'"
| reachable_GetValue:
    "reachable pf fp rd sh \<Longrightarrow> Cell_GetValue fp rd fuel pos sh = (v, sh') \<Longrightarrow> completed v
     \<Longrightarrow> reachable pf fp rd sh'"

text \<open>The invariant as the specification words it, over pairs of existing cells.\<close>

definition symmetric_edges :: "Sheet \<Rightarrow> bool" where
  "symmetric_edges sh \<longleftrightarrow>
     (\<forall>a b ca cb. deref sh a = Some ca \<and> deref sh b = Some cb \<longrightarrow>
        (b \<in> set (using_cells ca) \<longleftrightarrow> a \<in> set (calculated_cells cb)))"

text \<open>No edge set holds a pointer to a cell that does not exist.\<close>

definition no_dangling :: "Sheet \<Rightarrow> bool" where
  "no_dangling sh \<longleftrightarrow>
     (\<forall>a c b. deref sh a = Some c \<and> (b \<in> set (using_cells c) \<or> b \<in> set (calculated_cells c)) \<longrightarrow>
        b \<in> live sh)"

definition demo_reader :: reader where
  "demo_reader s = (if s = ''1'' then Some 1 else if s = ''2'' then Some 2 else None)"

definition sheet_B1_only :: Sheet where
  "sheet_B1_only =
     [[None,
       Some \<lparr>impl = EmptyImpl, calculated_cells = [], using_cells = [], pos0 = Position 0 0\<rparr>]]"

definition text_ok :: "Sheet \<Rightarrow> bool" where
  "text_ok sh \<longleftrightarrow> (\<forall>p c. deref sh p = Some c \<longrightarrow> impl c \<noteq> TextImpl [])"

definition sheet_foo :: Sheet where
  "sheet_foo =
     [[Some \<lparr>impl = TextImpl ''foo'', calculated_cells = [], using_cells = [], pos0 = Position 0 0\<rparr>]]"

definition sheet_bad :: Sheet where
  "sheet_bad =
     [[Some \<lparr>impl = TextImpl [], calculated_cells = [], using_cells = [], pos0 = Position 0 0\<rparr>]]"

text \<open>The cell at \<open>q\<close> holds a cached value: it is a formula whose \<open>cache_\<close> is set.\<close>

definition has_cache :: "Sheet \<Rightarrow> Position \<Rightarrow> bool" where
  "has_cache sh q \<longleftrightarrow> (\<exists>f v. map_option impl (deref sh q) = Some (FormulaImpl f (Some v)))"

text \<open>All direct dependents of \<open>x\<close> are without cache.\<close>

definition dependents_clear :: "Sheet \<Rightarrow> Position \<Rightarrow> bool" where
  "dependents_clear sh x \<longleftrightarrow> (\<forall>y. (x, y) \<in> used_by_rel sh \<longrightarrow> \<not> has_cache sh y)"

text \<open>What one invalidation pass establishes.\<close>

definition pass_done :: "Sheet \<Rightarrow> Sheet \<Rightarrow> bool" where
  "pass_done s s' \<longleftrightarrow>
     used_by_rel s' = used_by_rel s
     \<and> (\<forall>q. has_cache s' q \<longrightarrow> has_cache s q)
     \<and> (\<forall>x. has_cache s x \<and> \<not> has_cache s' x \<longrightarrow> dependents_clear s' x)"

text \<open>The claim as the specification states it: after \<open>SetCell(p, _)\<close> every cell reached
  from \<open>p\<close> by \<open>used_by\<close> edges is without cache.\<close>

definition all_dependents_uncached :: "Sheet \<Rightarrow> Position \<Rightarrow> bool" where
  "all_dependents_uncached sh p \<longleftrightarrow> (\<forall>c. (p, c) \<in> (used_by_rel sh)\<^sup>* \<longrightarrow> \<not> has_cache sh c)"

text \<open>
  The cells that the pass does reach: \<open>p\<close>, and every cell reached from \<open>p\<close> by \<open>used_by\<close>
  edges (of the state \<open>sh'\<close> after the call) through cells that held a cache in the state
  \<open>sh\<close> before the call.
\<close>

inductive_set invalidated :: "Sheet \<Rightarrow> Sheet \<Rightarrow> Position \<Rightarrow> Position set"
  for sh :: Sheet and sh' :: Sheet and p :: Position where
  invalidated_target: "p \<in> invalidated sh sh' p"
| invalidated_step:
    "a \<in> invalidated sh sh' p \<Longrightarrow> a = p \<or> has_cache sh a \<Longrightarrow> (a, b) \<in> used_by_rel sh'
     \<Longrightarrow> b \<in> invalidated sh sh' p"

definition mk_cell :: "Impl \<Rightarrow> Position list \<Rightarrow> Position list \<Rightarrow> Cell" where
  "mk_cell i used_by uses =
     \<lparr>impl = i, calculated_cells = used_by, using_cells = uses, pos0 = Position 0 0\<rparr>"

definition sum_ast :: FormulaAST where
  "sum_ast = \<lparr>root_expr = BinaryOpExpr Add (CellExpr A1) (CellExpr B2), GetCells = [A1, B2],
              PrintFormula = ''A1+B2''\<rparr>"

definition stale_1 :: Sheet where
  "stale_1 = [[Some (mk_cell (TextImpl ''foo'') [] [])]]"

definition stale_2 :: Sheet where
  "stale_2 = [[Some (mk_cell (TextImpl ''foo'') [] [])], [Some (mk_cell (TextImpl ''1'') [] [])]]"

definition stale_3 :: Sheet where
  "stale_3 =
     [[Some (mk_cell (TextImpl ''foo'') [] [])],
      [Some (mk_cell (TextImpl ''1'') [B2] []),
       Some (mk_cell (FormulaImpl (ref_ast A2 ''A2'') None) [] [A2])]]"

definition stale_4 :: Sheet where
  "stale_4 =
     [[Some (mk_cell (TextImpl ''foo'') [C1] []), None,
       Some (mk_cell (FormulaImpl sum_ast None) [] [A1, B2])],
      [Some (mk_cell (TextImpl ''1'') [B2] []),
       Some (mk_cell (FormulaImpl (ref_ast A2 ''A2'') None) [C1] [A2])]]"

definition stale_before :: Sheet where
  "stale_before =
     [[Some (mk_cell (TextImpl ''foo'') [C1] []), None,
       Some (mk_cell (FormulaImpl sum_ast (Some (Failed (FormulaError Value)))) [] [A1, B2])],
      [Some (mk_cell (TextImpl ''1'') [B2] []),
       Some (mk_cell (FormulaImpl (ref_ast A2 ''A2'') None) [C1] [A2])]]"

definition stale_after :: Sheet where
  "stale_after =
     [[Some (mk_cell (TextImpl ''foo'') [C1] []), None,
       Some (mk_cell (FormulaImpl sum_ast (Some (Failed (FormulaError Value)))) [] [A1, B2])],
      [Some (mk_cell (TextImpl ''2'') [B2] []),
       Some (mk_cell (FormulaImpl (ref_ast A2 ''A2'') None) [C1] [A2])]]"

definition fresh_after :: Sheet where
  "fresh_after =
     [[Some (mk_cell (TextImpl ''bar'') [C1] []), None,
       Some (mk_cell (FormulaImpl sum_ast None) [] [A1, B2])],
      [Some (mk_cell (TextImpl ''1'') [B2] []),
       Some (mk_cell (FormulaImpl (ref_ast A2 ''A2'') None) [C1] [A2])]]"



section \<open>Referenced cells of a formula\<close>

lemma Position_less_irrefl: "\<not> Position_less p p"
  by (simp add: Position_less_def)

lemma Position_less_trans:
  "Position_less a b \<Longrightarrow> Position_less b c \<Longrightarrow> Position_less a c"
  by (auto simp: Position_less_def)

lemma Position_less_total: "\<not> Position_less p q \<Longrightarrow> \<not> Position_less q p \<Longrightarrow> p = q"
  by (cases p; cases q) (auto simp: Position_less_def)

lemma set_set_insert: "set (set_insert p qs) = insert p (set qs)"
  by (induction qs) (auto dest: Position_less_total)

lemma sorted_set_insert:
  "sorted_wrt Position_less qs \<Longrightarrow> sorted_wrt Position_less (set_insert p qs)"
proof (induction qs)
  case Nil
  then show ?case by simp
next
  case (Cons q qs)
  then show ?case
    by (auto simp: set_set_insert intro: Position_less_trans)
qed

lemma set_collect_cells:
  "set (collect_cells cs acc) = set acc \<union> {p \<in> set cs. IsValid p}"
  by (induction cs arbitrary: acc) (auto simp: set_set_insert)

lemma sorted_collect_cells:
  "sorted_wrt Position_less acc \<Longrightarrow> sorted_wrt Position_less (collect_cells cs acc)"
  by (induction cs arbitrary: acc) (auto simp: sorted_set_insert)

lemma sorted_wrt_Position_less_distinct:
  "sorted_wrt Position_less ps \<Longrightarrow> distinct ps"
  by (induction ps) (auto simp: Position_less_irrefl)

text \<open>
  C6. For every formula, \<open>GetReferencedCells\<close> returns exactly the valid positions that
  occur in the expression, each once, in strictly ascending \<open>(row, col)\<close> order; invalid
  positions are not in the list.
\<close>

theorem C6_GetReferencedCells_sorted_valid:
  "set (Formula_GetReferencedCells ast) = {p. p \<in> set (GetCells ast) \<and> IsValid p}
   \<and> sorted_wrt Position_less (Formula_GetReferencedCells ast)
   \<and> distinct (Formula_GetReferencedCells ast)"
proof -
  have s: "sorted_wrt Position_less (Formula_GetReferencedCells ast)"
    unfolding Formula_GetReferencedCells_def by (rule sorted_collect_cells) simp
  have "set (Formula_GetReferencedCells ast) = {p. p \<in> set (GetCells ast) \<and> IsValid p}"
    unfolding Formula_GetReferencedCells_def by (simp add: set_collect_cells)
  with s sorted_wrt_Position_less_distinct [OF s] show ?thesis by simp
qed

text \<open>
  C5. The claim asks for one token per error kind. The stream operator of
  \<^verbatim>\<open>formula.cpp\<close> ignores its argument: a \<open>Ref\<close> error and a \<open>Value\<close> error print
  \<^verbatim>\<open>#DIV/0!\<close> as well.
\<close>

theorem C5_print_FormulaError_ignores_category:
  "print_FormulaError (FormulaError Ref) = ''#DIV/0!''
   \<and> print_FormulaError (FormulaError Value) = ''#DIV/0!''
   \<and> print_FormulaError (FormulaError Div0) = ''#DIV/0!''"
  by (simp add: print_FormulaError_def)

section \<open>Reading cells\<close>


text \<open>
  C7. For a valid position both overloads of \<open>GetCell\<close> return null outside the
  materialised extent and at an empty slot; at an occupied slot the non-const overload
  returns the stored cell, the const overload returns it only when its text is not empty.
  For an invalid position both throw \<open>InvalidPositionException\<close>.
\<close>

theorem C7_GetCell_overloads:
  "(IsValid pos \<longrightarrow>
      Sheet_GetCell sh pos =
        Inr (if in_extent sh pos then (case slot sh pos of None \<Rightarrow> None | Some c \<Rightarrow> Some pos) else None)
    \<and> Sheet_GetCell_const sh pos =
        Inr (if in_extent sh pos then
               (case slot sh pos of None \<Rightarrow> None
                | Some c \<Rightarrow> if Cell_GetText c = [] then None else Some pos)
             else None))
   \<and> (\<not> IsValid pos \<longrightarrow>
      Sheet_GetCell sh pos = Inl (Throw InvalidPositionException)
    \<and> Sheet_GetCell_const sh pos = Inl (Throw InvalidPositionException))"
  by (simp add: Sheet_GetCell_def Sheet_GetCell_const_def slot_get_def split: option.splits)

theorem C7_GetCell_overloads_witness:
  "IsValid (Position 0 0) \<and> Sheet_GetCell [demo_row] (Position 0 0) = Inr (Some (Position 0 0))
   \<and> Sheet_GetCell_const [demo_row] (Position 0 0) = Inr (Some (Position 0 0))
   \<and> IsValid (Position 0 1) \<and> Sheet_GetCell [demo_row] (Position 0 1) = Inr (Some (Position 0 1))
   \<and> Sheet_GetCell_const [demo_row] (Position 0 1) = Inr None
   \<and> IsValid (Position 0 2) \<and> Sheet_GetCell [demo_row] (Position 0 2) = Inr None
   \<and> Sheet_GetCell_const [demo_row] (Position 0 2) = Inr None
   \<and> IsValid (Position 3 0) \<and> Sheet_GetCell [demo_row] (Position 3 0) = Inr None
   \<and> Sheet_GetCell_const [demo_row] (Position 3 0) = Inr None
   \<and> \<not> IsValid (Position (-1) 0)
   \<and> Sheet_GetCell [demo_row] (Position (-1) 0) = Inl (Throw InvalidPositionException)
   \<and> Sheet_GetCell_const [demo_row] (Position (-1) 0) = Inl (Throw InvalidPositionException)"
  using C7_GetCell_overloads [of "Position 0 0" "[demo_row]"]
    C7_GetCell_overloads [of "Position 0 1" "[demo_row]"]
    C7_GetCell_overloads [of "Position 0 2" "[demo_row]"]
    C7_GetCell_overloads [of "Position 3 0" "[demo_row]"]
    C7_GetCell_overloads [of "Position (-1) 0" "[demo_row]"]
  by (simp add: IsValid_def in_extent_def slot_def demo_row_def Cell_GetText_def new_Cell_def)

lemma Formula_Evaluate_catches:
  "fst (Formula_Evaluate fp rd gv f sh) \<noteq> Inl (Throw (FormulaErrorThrown e))"
  by (auto simp: Formula_Evaluate_def split: prod.splits sum.splits abort.splits thrown.splits)

text \<open>
  C4. The lookup that \<open>Formula::Evaluate\<close> hands to the expression: an invalid position
  raises \<open>Ref\<close>; an absent cell gives 0; a number gives that number; the empty string
  gives 0; a string that reads in full as a double gives that number; any other string
  raises \<open>Value\<close>; an error value is raised again as it is. \<open>Evaluate\<close> returns a raised
  \<open>FormulaError\<close> as its result and never lets one escape.
\<close>

theorem C4_params_cases:
  "(\<not> IsValid p \<longrightarrow>
      params rd (Cell_GetValue fp rd n) p sh = (Inl (Throw (FormulaErrorThrown (FormulaError Ref))), sh))
   \<and> (IsValid p \<and> Sheet_GetCell_const sh p = Inr None \<longrightarrow>
      params rd (Cell_GetValue fp rd n) p sh = (Inr 0, sh))
   \<and> (IsValid p \<and> Sheet_GetCell_const sh p = Inr (Some cell) \<longrightarrow>
        (Cell_GetValue fp rd n cell sh = (Inr (Number d), sh') \<longrightarrow>
           params rd (Cell_GetValue fp rd n) p sh = (Inr d, sh'))
      \<and> (Cell_GetValue fp rd n cell sh = (Inr (Str []), sh') \<longrightarrow>
           params rd (Cell_GetValue fp rd n) p sh = (Inr 0, sh'))
      \<and> (Cell_GetValue fp rd n cell sh = (Inr (Str s), sh') \<and> s \<noteq> [] \<and> rd s = Some d \<longrightarrow>
           params rd (Cell_GetValue fp rd n) p sh = (Inr d, sh'))
      \<and> (Cell_GetValue fp rd n cell sh = (Inr (Str s), sh') \<and> s \<noteq> [] \<and> rd s = None \<longrightarrow>
           params rd (Cell_GetValue fp rd n) p sh
             = (Inl (Throw (FormulaErrorThrown (FormulaError Value))), sh'))
      \<and> (Cell_GetValue fp rd n cell sh = (Inr (Error e), sh') \<longrightarrow>
           params rd (Cell_GetValue fp rd n) p sh = (Inl (Throw (FormulaErrorThrown e)), sh')))
   \<and> (Execute fp (params rd (Cell_GetValue fp rd n)) (root_expr f) sh
         = (Inl (Throw (FormulaErrorThrown e)), sh') \<longrightarrow>
       Formula_Evaluate fp rd (Cell_GetValue fp rd n) f sh = (Inr (Failed e), sh'))
   \<and> fst (Formula_Evaluate fp rd (Cell_GetValue fp rd n) f sh) \<noteq> Inl (Throw (FormulaErrorThrown e))"
proof -
  have "fst (Formula_Evaluate fp rd (Cell_GetValue fp rd n) f sh) \<noteq> Inl (Throw (FormulaErrorThrown e))"
    by (rule Formula_Evaluate_catches)
  then show ?thesis
    by (simp add: params_def Formula_Evaluate_def)
qed

lemmas sample_simps =
  IsValid_def Sheet_GetCell_const_def in_extent_def slot_def slot_get_def deref_def sample_row_def
  sample_ast_def sample_reader_def Cell_GetText_def new_Cell_def ESCAPE_SIGN_def FORMULA_SIGN_def

theorem C4_params_cases_witness:
  "params sample_reader (Cell_GetValue demo_arith sample_reader (Suc 0)) (Position (-1) 0) [sample_row]
     = (Inl (Throw (FormulaErrorThrown (FormulaError Ref))), [sample_row])
   \<and> params sample_reader (Cell_GetValue demo_arith sample_reader (Suc 0)) (Position 0 5) [sample_row]
     = (Inr 0, [sample_row])
   \<and> params sample_reader (Cell_GetValue demo_arith sample_reader (Suc 0)) (Position 0 3) [sample_row]
     = (Inr 2, [sample_row])
   \<and> params sample_reader (Cell_GetValue demo_arith sample_reader (Suc 0)) (Position 0 2) [sample_row]
     = (Inr 0, [sample_row])
   \<and> params sample_reader (Cell_GetValue demo_arith sample_reader (Suc 0)) (Position 0 1) [sample_row]
     = (Inr (314 / 100), [sample_row])
   \<and> params sample_reader (Cell_GetValue demo_arith sample_reader (Suc 0)) (Position 0 0) [sample_row]
     = (Inl (Throw (FormulaErrorThrown (FormulaError Value))), [sample_row])
   \<and> params sample_reader (Cell_GetValue demo_arith sample_reader (Suc 0)) (Position 0 4) [sample_row]
     = (Inl (Throw (FormulaErrorThrown (FormulaError Div0))), [sample_row])
   \<and> Formula_Evaluate demo_arith sample_reader (Cell_GetValue demo_arith sample_reader (Suc 0)) sample_ast [sample_row]
     = (Inr (Failed (FormulaError Value)), [sample_row])"
proof -
  note c = C4_params_cases [where fp = demo_arith and rd = sample_reader and n = "Suc 0" and sh = "[sample_row]"
      and sh' = "[sample_row]" and f = sample_ast]
  have v: "\<not> IsValid (Position (-1) 0)" "IsValid (Position 0 0)" "IsValid (Position 0 1)"
    "IsValid (Position 0 2)" "IsValid (Position 0 3)" "IsValid (Position 0 4)"
    "IsValid (Position 0 5)"
    by (simp_all add: IsValid_def)
  have g: "Sheet_GetCell_const [sample_row] (Position 0 5) = Inr None"
    "Sheet_GetCell_const [sample_row] (Position 0 0) = Inr (Some (Position 0 0))"
    "Sheet_GetCell_const [sample_row] (Position 0 1) = Inr (Some (Position 0 1))"
    "Sheet_GetCell_const [sample_row] (Position 0 2) = Inr (Some (Position 0 2))"
    "Sheet_GetCell_const [sample_row] (Position 0 3) = Inr (Some (Position 0 3))"
    "Sheet_GetCell_const [sample_row] (Position 0 4) = Inr (Some (Position 0 4))"
    by (simp_all add: sample_simps)
  have gv: "Cell_GetValue demo_arith sample_reader (Suc 0) (Position 0 0) [sample_row] = (Inr (Str ''foo''), [sample_row])"
    "Cell_GetValue demo_arith sample_reader (Suc 0) (Position 0 1) [sample_row] = (Inr (Str ''3.14''), [sample_row])"
    "Cell_GetValue demo_arith sample_reader (Suc 0) (Position 0 2) [sample_row] = (Inr (Str []), [sample_row])"
    "Cell_GetValue demo_arith sample_reader (Suc 0) (Position 0 3) [sample_row] = (Inr (Number 2), [sample_row])"
    "Cell_GetValue demo_arith sample_reader (Suc 0) (Position 0 4) [sample_row]
       = (Inr (Error (FormulaError Div0)), [sample_row])"
    by (simp_all add: sample_simps)
  have r: "sample_reader ''3.14'' = Some (314 / 100)" "sample_reader ''foo'' = None"
    by (simp_all add: sample_reader_def)
  have c1: "params sample_reader (Cell_GetValue demo_arith sample_reader (Suc 0)) (Position (-1) 0) [sample_row]
     = (Inl (Throw (FormulaErrorThrown (FormulaError Ref))), [sample_row])"
    using c [where p = "Position (-1) 0"] v by blast
  have c2: "params sample_reader (Cell_GetValue demo_arith sample_reader (Suc 0)) (Position 0 5) [sample_row]
     = (Inr 0, [sample_row])"
    using c [where p = "Position 0 5"] v g by blast
  have c3: "params sample_reader (Cell_GetValue demo_arith sample_reader (Suc 0)) (Position 0 3) [sample_row]
     = (Inr 2, [sample_row])"
    using c [where p = "Position 0 3" and cell = "Position 0 3" and d = 2] v g gv by blast
  have c4: "params sample_reader (Cell_GetValue demo_arith sample_reader (Suc 0)) (Position 0 2) [sample_row]
     = (Inr 0, [sample_row])"
    using c [where p = "Position 0 2" and cell = "Position 0 2"] v g gv by blast
  have c5: "params sample_reader (Cell_GetValue demo_arith sample_reader (Suc 0)) (Position 0 1) [sample_row]
     = (Inr (314 / 100), [sample_row])"
    using c [where p = "Position 0 1" and cell = "Position 0 1" and s = "''3.14''" and d = "314 / 100"]
      v g gv r by simp
  have c6: "params sample_reader (Cell_GetValue demo_arith sample_reader (Suc 0)) (Position 0 0) [sample_row]
     = (Inl (Throw (FormulaErrorThrown (FormulaError Value))), [sample_row])"
    using c [where p = "Position 0 0" and cell = "Position 0 0" and s = "''foo''"]
      v g gv r by simp
  have c7: "params sample_reader (Cell_GetValue demo_arith sample_reader (Suc 0)) (Position 0 4) [sample_row]
     = (Inl (Throw (FormulaErrorThrown (FormulaError Div0))), [sample_row])"
    using c [where p = "Position 0 4" and cell = "Position 0 4" and e = "FormulaError Div0"]
      v g gv by blast
  have "Execute demo_arith (params sample_reader (Cell_GetValue demo_arith sample_reader (Suc 0))) (root_expr sample_ast)
          [sample_row] = (Inl (Throw (FormulaErrorThrown (FormulaError Value))), [sample_row])"
    using c6 by (simp add: sample_ast_def)
  then have c8: "Formula_Evaluate demo_arith sample_reader (Cell_GetValue demo_arith sample_reader (Suc 0)) sample_ast [sample_row]
     = (Inr (Failed (FormulaError Value)), [sample_row])"
    using c [where e = "FormulaError Value"] by blast
  from c1 c2 c3 c4 c5 c6 c7 c8 show ?thesis by blast
qed

section \<open>The grid as a heap\<close>

lemma Sheet_SetCell_valid:
  "IsValid pos \<Longrightarrow>
     Sheet_SetCell pf fuel pos text sh = Cell_Set pf fuel pos text pos (materialised sh pos)"
  by (simp add: Sheet_SetCell.simps materialised_def grown_def Let_def)

lemma Sheet_SetCell_invalid:
  "\<not> IsValid pos \<Longrightarrow> Sheet_SetCell pf fuel pos text sh = (Inl (Throw InvalidPositionException), sh)"
  by (simp add: Sheet_SetCell.simps)

lemma length_store [simp]: "length (store sh p x) = length sh"
  by (simp add: store_def)

lemma length_row_store [simp]: "length (store sh p x ! i) = length (sh ! i)"
proof (cases "nat (row p) < length sh")
  case True
  then show ?thesis by (cases "i = nat (row p)") (simp_all add: store_def)
next
  case False
  then show ?thesis by (simp add: store_def list_update_beyond)
qed

lemma in_extent_store [simp]: "in_extent (store sh p x) q = in_extent sh q"
  by (simp add: in_extent_def)

lemma slot_store:
  "slot (store sh p x) q =
     (if nat (row q) = nat (row p) \<and> nat (col q) = nat (col p) \<and> nat (row p) < length sh
         \<and> nat (col p) < length (sh ! nat (row p))
      then x else slot sh q)"
proof (cases "nat (row p) < length sh")
  case True
  show ?thesis
  proof (cases "nat (col p) < length (sh ! nat (row p))")
    case c: True
    with True show ?thesis
      by (auto simp: slot_def store_def nth_list_update)
  next
    case False
    with True show ?thesis
      by (auto simp: slot_def store_def nth_list_update list_update_beyond)
  qed
next
  case False
  then show ?thesis by (simp add: slot_def store_def list_update_beyond)
qed

lemma deref_store:
  assumes "0 \<le> row p" "0 \<le> col p"
  shows "deref (store sh p x) q = (if q = p \<and> in_extent sh p then x else deref sh q)"
proof (cases "q = p")
  case True
  then show ?thesis
    using assms by (auto simp: deref_def slot_store in_extent_def)
next
  case False
  then have "0 \<le> row q \<Longrightarrow> 0 \<le> col q \<Longrightarrow>
      \<not> (nat (row q) = nat (row p) \<and> nat (col q) = nat (col p))"
    using assms by (cases p; cases q) auto
  then show ?thesis
    using False by (auto simp: deref_def slot_store)
qed

lemma deref_store_live:
  "deref sh p = Some c \<Longrightarrow> deref (store sh p x) q = (if q = p then x else deref sh q)"
  by (cases "0 \<le> row p \<and> 0 \<le> col p") (auto simp: deref_store, auto simp: deref_def split: if_splits)

lemma deref_Some_range:
  "deref sh p = Some c \<Longrightarrow> 0 \<le> row p \<and> 0 \<le> col p \<and> in_extent sh p \<and> slot sh p = Some c"
  by (auto simp: deref_def split: if_splits)

lemma length_resize [simp]: "length (resize n d xs) = n"
  by (simp add: resize_def)

lemma nth_resize:
  "i < n \<Longrightarrow> resize n d xs ! i = (if i < length xs then xs ! i else d)"
  by (auto simp: resize_def nth_append)

lemma resize_grow: "length xs \<le> n \<Longrightarrow> resize n d xs = xs @ replicate (n - length xs) d"
  by (simp add: resize_def)

lemma deref_pad_rows: "deref (sh @ replicate k []) q = deref sh q"
proof (cases "nat (row q) < length sh")
  case True
  then show ?thesis by (auto simp: deref_def in_extent_def slot_def nth_append)
next
  case False
  then have "0 \<le> row q \<Longrightarrow> \<not> row q < int (length sh)" by linarith
  moreover have "(sh @ replicate k []) ! nat (row q) = []" if "nat (row q) < length sh + k"
    using that False by (simp add: nth_append)
  ultimately show ?thesis
    by (auto simp: deref_def in_extent_def)
qed

lemma deref_pad_row:
  assumes "r < length sh"
  shows "deref (sh[r := sh ! r @ replicate k None]) q = deref sh q"
proof (cases "nat (row q) = r")
  case False
  then show ?thesis by (auto simp: deref_def in_extent_def slot_def)
next
  case True
  then have row: "sh[r := sh ! r @ replicate k None] ! nat (row q) = sh ! r @ replicate k None"
    using assms by simp
  show ?thesis
  proof (cases "nat (col q) < length (sh ! r)")
    case c: True
    then show ?thesis
      using True assms by (auto simp: deref_def in_extent_def slot_def row nth_append)
  next
    case c: False
    then have "0 \<le> col q \<Longrightarrow> \<not> col q < int (length (sh ! r))" by linarith
    moreover have "(sh ! r @ replicate k None) ! nat (col q) = None"
      if "nat (col q) < length (sh ! r) + k"
      using that c by (simp add: nth_append)
    ultimately show ?thesis
      using True assms by (auto simp: deref_def in_extent_def slot_def row)
  qed
qed

lemma le_nat_max: "n \<le> nat (max a (int n))"
  by linarith

lemma deref_resize_rows: "length sh \<le> n \<Longrightarrow> deref (resize n [] sh) q = deref sh q"
  by (simp add: resize_grow deref_pad_rows)

lemma deref_resize_row:
  "r < length sh \<Longrightarrow> length (sh ! r) \<le> m \<Longrightarrow> deref (sh[r := resize m None (sh ! r)]) q = deref sh q"
  by (simp add: resize_grow deref_pad_row)

lemma grown_props:
  assumes v: "IsValid pos"
  shows deref_grown: "deref (grown sh pos) q = deref sh q"
    and in_extent_grown: "in_extent (grown sh pos) pos"
proof -
  define n where "n = nat (max (row pos + 1) (int (length sh)))"
  define c1 where "c1 = resize n [] sh"
  define m where "m = nat (max (col pos + 1) (int (length (c1 ! nat (row pos)))))"
  have g: "grown sh pos = c1[nat (row pos) := resize m None (c1 ! nat (row pos))]"
    by (simp add: grown_def Let_def n_def c1_def m_def)
  have ln: "length sh \<le> n" unfolding n_def by (rule le_nat_max)
  have lm: "length (c1 ! nat (row pos)) \<le> m" unfolding m_def by (rule le_nat_max)
  have lc1: "length c1 = n" by (simp add: c1_def)
  have rn: "nat (row pos) < n" using v by (auto simp: IsValid_def n_def)
  have cm: "nat (col pos) < m" using v by (auto simp: IsValid_def m_def)
  have "deref (grown sh pos) q = deref c1 q"
    unfolding g using rn lm lc1 by (simp add: deref_resize_row)
  also have "\<dots> = deref sh q"
    unfolding c1_def by (rule deref_resize_rows [OF ln])
  finally show "deref (grown sh pos) q = deref sh q" .
  have "length (grown sh pos) = n" by (simp add: g lc1)
  moreover have "length (grown sh pos ! nat (row pos)) = m"
    using rn lc1 by (simp add: g)
  ultimately show "in_extent (grown sh pos) pos"
    using rn cm v unfolding in_extent_def IsValid_def by linarith
qed

lemma deref_materialised:
  "IsValid pos \<Longrightarrow>
     deref (materialised sh pos) q =
       (if q = pos then Some (case deref sh pos of None \<Rightarrow> new_Cell | Some c \<Rightarrow> c)
        else deref sh q)"
proof -
  assume v: "IsValid pos"
  then have nn: "0 \<le> row pos" "0 \<le> col pos" by (auto simp: IsValid_def)
  have d: "deref (grown sh pos) pos = slot (grown sh pos) pos"
    using in_extent_grown [OF v] nn by (simp add: deref_def)
  show ?thesis
  proof (cases "slot (grown sh pos) pos")
    case None
    then show ?thesis
      using d deref_grown [OF v, of sh] in_extent_grown [OF v, of sh] nn
      by (auto simp: materialised_def deref_store)
  next
    case (Some c)
    then show ?thesis
      using d deref_grown [OF v, of sh]
      by (auto simp: materialised_def)
  qed
qed

section \<open>The two halves of \<open>Cell::Set\<close>\<close>

lemma Cell_Set_unfold:
  "Cell_Set pf fuel this text pos sh =
     (case candidate pf fuel text sh of
        (Inl a, sh0) \<Rightarrow> (Inl a, sh0)
      | (Inr new_impl, sh0) \<Rightarrow>
          (case CheckCircularDependencies sh0 new_impl pos of
             Inl a \<Rightarrow> (Inl a, sh0)
           | Inr True \<Rightarrow> (Inl (Throw CircularDependencyException), sh0)
           | Inr False \<Rightarrow> rewire pf fuel this new_impl sh0))"
  unfolding candidate_def rewire_def materialise_ref_def add_edge_def
  by (rule Cell_Set.simps)

lemma store_same: "slot sh p = x \<Longrightarrow> store sh p x = sh"
  by (auto simp: store_def slot_def)

lemma store_deref_same: "deref sh p = Some c \<Longrightarrow> store sh p (Some c) = sh"
  by (rule store_same) (auto simp: deref_def split: if_splits)

lemma CheckCircularDependencies_no_refs:
  "Impl_GetReferencedCells i = [] \<Longrightarrow> CheckCircularDependencies sh i pos = Inr False"
  by (simp add: CheckCircularDependencies_def)

lemma ResetCache_no_dependents:
  "deref sh this = Some c \<Longrightarrow> calculated_cells c = [] \<Longrightarrow> Impl_ResetCache (impl c) = impl c \<Longrightarrow>
     ResetCache fuel this True sh = (if fuel = 0 then Inl OutOfFuel else Inr (), sh)"
  by (cases fuel) (simp_all add: store_deref_same)

lemma rewire_new_Cell:
  "deref sh this = Some new_Cell \<Longrightarrow>
     rewire pf fuel this EmptyImpl sh = (if fuel = 0 then Inl OutOfFuel else Inr (), sh)"
proof -
  assume d: "deref sh this = Some new_Cell"
  have e: "new_Cell\<lparr>impl := EmptyImpl\<rparr> = new_Cell" "new_Cell\<lparr>using_cells := []\<rparr> = new_Cell"
    "using_cells new_Cell = []" "calculated_cells new_Cell = []" "impl new_Cell = EmptyImpl"
    by (simp_all add: new_Cell_def)
  show ?thesis
    using d by (simp add: rewire_def e store_deref_same ResetCache_no_dependents)
qed

lemma Sheet_SetCell_empty_absent:
  assumes v: "IsValid p" and a: "deref sh p = None"
  shows "Sheet_SetCell pf fuel p [] sh =
           (if fuel = 0 then Inl OutOfFuel else Inr (), materialised sh p)"
proof -
  have d: "deref (materialised sh p) p = Some new_Cell"
    using a by (simp add: deref_materialised [OF v])
  show ?thesis
    unfolding Sheet_SetCell_valid [OF v] Cell_Set_unfold
    by (simp add: candidate_def CheckCircularDependencies_no_refs rewire_new_Cell [OF d])
qed

section \<open>A failed \<open>SetCell\<close> only adds empty cells\<close>

lemma extends_refl: "extends sh sh"
  by (simp add: extends_def)

lemma extends_trans: "extends a b \<Longrightarrow> extends b c \<Longrightarrow> extends a c"
  unfolding extends_def by metis

lemma extends_materialised: "IsValid p \<Longrightarrow> extends sh (materialised sh p)"
  by (auto simp: extends_def deref_materialised split: option.splits)

lemma Sheet_GetCell_None_deref:
  "IsValid p \<Longrightarrow> Sheet_GetCell sh p = Inr None \<Longrightarrow> deref sh p = None"
  by (auto simp: Sheet_GetCell_def deref_def slot_get_def split: if_splits option.splits)

lemma GetConcreteCell_None_deref:
  "GetConcreteCell sh p = Inr None \<Longrightarrow> IsValid p \<and> deref sh p = None"
  by (auto simp: GetConcreteCell_def deref_def slot_get_def split: if_splits option.splits)

lemma GetConcreteCell_Some_deref:
  "GetConcreteCell sh p = Inr (Some u) \<Longrightarrow> u = p \<and> IsValid p \<and> deref sh p \<noteq> None"
  by (auto simp: GetConcreteCell_def deref_def slot_get_def IsValid_def split: if_splits option.splits)

lemma for_each_invariant:
  assumes "for_each xs body s = (r, s')" and "I s"
    and "\<And>x t r t'. x \<in> set xs \<Longrightarrow> I t \<Longrightarrow> body x t = (r, t') \<Longrightarrow> I t' \<and> (\<forall>a. r = Inl a \<longrightarrow> A a)"
  shows "I s' \<and> (\<forall>a. r = Inl a \<longrightarrow> A a)"
  using assms
proof (induction xs arbitrary: s)
  case Nil
  then show ?case by auto
next
  case (Cons x xs)
  obtain r1 s1 where b: "body x s = (r1, s1)" by (cases "body x s")
  from Cons.prems(3) [OF _ Cons.prems(2) b] have i1: "I s1" and a1: "\<forall>a. r1 = Inl a \<longrightarrow> A a"
    by simp_all
  show ?case
  proof (cases r1)
    case (Inl a)
    with Cons.prems(1) b have "r = Inl a" "s' = s1" by simp_all
    with i1 a1 Inl show ?thesis by simp
  next
    case (Inr u)
    with Cons.prems(1) b have "for_each xs body s1 = (r, s')" by simp
    show ?thesis
    proof (rule Cons.IH [OF \<open>for_each xs body s1 = (r, s')\<close> i1])
      fix y t r t'
      assume "y \<in> set xs" "I t" "body y t = (r, t')"
      then show "I t' \<and> (\<forall>a. r = Inl a \<longrightarrow> A a)"
        using Cons.prems(3) [of y t r t'] by simp
    qed
  qed
qed

lemma for_each_abort:
  assumes "for_each xs body s = (Inl a, s')"
    and "\<And>x t b t'. x \<in> set xs \<Longrightarrow> body x t = (Inl b, t') \<Longrightarrow> A b"
  shows "A a"
  using assms
proof (induction xs arbitrary: s)
  case Nil
  then show ?case by simp
next
  case (Cons x xs)
  obtain r1 s1 where b: "body x s = (r1, s1)" by (cases "body x s")
  show ?case
  proof (cases r1)
    case (Inl c)
    with Cons.prems(1) b have "c = a" by simp
    with Cons.prems(2) [of x s c s1] b Inl show ?thesis by simp
  next
    case (Inr u)
    with Cons.prems(1) b have l: "for_each xs body s1 = (Inl a, s')" by simp
    show ?thesis
    proof (rule Cons.IH [OF l])
      fix y t b t'
      assume "y \<in> set xs" "body y t = (Inl b, t')"
      then show "A b" using Cons.prems(2) [of y t b t'] by simp
    qed
  qed
qed

lemma materialise_ref_extends:
  assumes "materialise_ref pf fuel p s = (r, s')"
  shows "extends s s' \<and> (\<forall>a. r = Inl a \<longrightarrow> a = OutOfFuel)"
proof (cases "IsValid p \<and> Sheet_GetCell s p = Inr None")
  case True
  then have v: "IsValid p" and d: "deref s p = None"
    by (simp_all add: Sheet_GetCell_None_deref)
  from assms True have "s' = materialised s p" "r = (if fuel = 0 then Inl OutOfFuel else Inr ())"
    by (simp_all add: materialise_ref_def Sheet_SetCell_empty_absent [OF v d])
  then show ?thesis by (simp add: extends_materialised [OF v])
next
  case False
  with assms show ?thesis by (auto simp: materialise_ref_def extends_refl)
qed

lemma candidate_extends:
  assumes "candidate pf fuel text sh = (r, sh0)"
  shows "extends sh sh0 \<and> (\<forall>a. r = Inl a \<longrightarrow> a = Throw FormulaException \<or> a = OutOfFuel)"
proof (cases "text \<noteq> [] \<and> length text \<ge> 2 \<and> hd text = FORMULA_SIGN")
  case False
  with assms show ?thesis by (auto simp: candidate_def extends_refl split: if_splits)
next
  case True
  show ?thesis
  proof (cases "pf (tl text)")
    case None
    with assms True show ?thesis by (auto simp: candidate_def extends_refl)
  next
    case (Some f)
    obtain r1 sh1 where
      l: "for_each (Impl_GetReferencedCells (FormulaImpl f None)) (materialise_ref pf fuel) sh = (r1, sh1)"
      by (cases "for_each (Impl_GetReferencedCells (FormulaImpl f None)) (materialise_ref pf fuel) sh")
    have "extends sh sh1 \<and> (\<forall>a. r1 = Inl a \<longrightarrow> a = OutOfFuel)"
      by (rule for_each_invariant [OF l, where I = "extends sh" and A = "\<lambda>a. a = OutOfFuel"])
         (auto simp: extends_refl dest: materialise_ref_extends intro: extends_trans)
    moreover from assms True Some l have "sh0 = sh1"
      "r = (case r1 of Inl a \<Rightarrow> Inl a | Inr u \<Rightarrow> Inr (FormulaImpl f None))"
      by (auto simp: candidate_def split: sum.splits)
    ultimately show ?thesis by (auto split: sum.splits)
  qed
qed

lemma unlink_abort: "unlink this used sh = (Inl a, sh') \<Longrightarrow> a = NullDeref"
  by (auto simp: unlink_def split: option.splits)

lemma link_abort: "link this used sh = (Inl a, sh') \<Longrightarrow> a = NullDeref"
  by (auto simp: link_def Let_def split: option.splits)

lemma GetConcreteCell_abort: "GetConcreteCell sh p = Inl a \<Longrightarrow> a = Throw InvalidPositionException"
  by (auto simp: GetConcreteCell_def split: if_splits)

lemma add_edge_abort:
  assumes "add_edge pf fuel this p s = (Inl a, s')"
  shows "a = NullDeref \<or> a = OutOfFuel \<or> a = Throw InvalidPositionException"
proof (cases "GetConcreteCell s p")
  case (Inl b)
  with assms show ?thesis by (auto simp: add_edge_def dest: GetConcreteCell_abort)
next
  case (Inr ptr)
  show ?thesis
  proof (cases ptr)
    case (Some used)
    with assms Inr show ?thesis by (auto simp: add_edge_def dest: link_abort)
  next
    case None
    with Inr have v: "IsValid p" and d: "deref s p = None"
      by (simp_all add: GetConcreteCell_None_deref)
    from assms Inr None show ?thesis
      by (auto simp: add_edge_def Sheet_SetCell_empty_absent [OF v d]
          split: if_splits sum.splits option.splits dest: link_abort GetConcreteCell_abort)
  qed
qed

lemma ResetCache_abort:
  "ResetCache fuel this force sh = (Inl a, sh') \<Longrightarrow> a = NullDeref \<or> a = OutOfFuel"
proof (induction fuel arbitrary: this force sh sh' a)
  case 0
  then show ?case by simp
next
  case (Suc n)
  show ?case
  proof (cases "deref sh this")
    case None
    with Suc.prems show ?thesis by simp
  next
    case (Some c)
    show ?thesis
    proof (cases "Impl_HasCache (impl c) \<or> force")
      case False
      with Suc.prems Some show ?thesis by simp
    next
      case True
      with Suc.prems Some have
        l: "for_each (calculated_cells c) (\<lambda>dependent s. ResetCache n dependent False s)
              (store sh this (Some (c\<lparr>impl := Impl_ResetCache (impl c)\<rparr>))) = (Inl a, sh')"
        by simp
      show ?thesis
        by (rule for_each_abort [OF l]) (rule Suc.IH)
    qed
  qed
qed

lemma HasCircularDependency_abort:
  "HasCircularDependency sh cell v pc = Inl a \<Longrightarrow> a = NullDeref \<or> a = Throw InvalidPositionException"
  "HasCircularDependency_loop sh ps v pc = Inl a \<Longrightarrow> a = NullDeref \<or> a = Throw InvalidPositionException"
proof (induction sh cell v pc and sh ps v pc rule: HasCircularDependency_HasCircularDependency_loop.induct)
  case (1 sh cell visitedPos pos_const)
  then show ?case by (auto simp: HasCircularDependency.simps split: option.splits)
next
  case (2 sh visitedPos pos_const)
  then show ?case by simp
next
  case (3 sh dependentPos rest visitedPos pos_const)
  show ?case
  proof (cases "GetConcreteCell sh dependentPos")
    case (Inl b)
    with 3(4) show ?thesis by (auto dest: GetConcreteCell_abort)
  next
    case (Inr ref_cell)
    show ?thesis
    proof (cases "pos_const = dependentPos")
      case True
      with 3(4) Inr show ?thesis by simp
    next
      case ne: False
      show ?thesis
      proof (cases "ref_cell \<in> visitedPos")
        case True
        with 3(4) Inr ne have "HasCircularDependency_loop sh rest visitedPos pos_const = Inl a" by simp
        from 3(3) [OF Inr ne _ this] True show ?thesis by simp
      next
        case nv: False
        show ?thesis
        proof (cases "HasCircularDependency sh ref_cell (insert ref_cell visitedPos) pos_const")
          case (Inl b)
          with 3(4) Inr ne nv have "a = b" by simp
          with 3(1) [OF Inr ne nv] Inl show ?thesis by simp
        next
          case r: (Inr fv)
          obtain found visited1 where fv: "fv = (found, visited1)" by (cases fv)
          show ?thesis
          proof (cases found)
            case True
            with 3(4) Inr ne nv r fv show ?thesis by simp
          next
            case nf: False
            with 3(4) Inr ne nv r fv
            have "HasCircularDependency_loop sh rest visited1 pos_const = Inl a" by simp
            from 3(2) [OF Inr ne nv r [unfolded fv] _ nf this] show ?thesis by simp
          qed
        qed
      qed
    qed
  qed
qed

lemma CheckCircularDependencies_loop_abort:
  "CheckCircularDependencies_loop sh ps v pos = Inl a \<Longrightarrow>
     a = NullDeref \<or> a = Throw InvalidPositionException"
proof (induction ps arbitrary: v)
  case Nil
  then show ?case by simp
next
  case (Cons p ps)
  then show ?case
    by (auto split: if_splits sum.splits prod.splits
        dest: GetConcreteCell_abort HasCircularDependency_abort(1))
qed

lemma CheckCircularDependencies_abort:
  "CheckCircularDependencies sh i pos = Inl a \<Longrightarrow> a = NullDeref \<or> a = Throw InvalidPositionException"
  unfolding CheckCircularDependencies_def by (rule CheckCircularDependencies_loop_abort)

lemma rewire_abort:
  assumes "rewire pf fuel this new_impl sh = (Inl a, sh')"
  shows "a = NullDeref \<or> a = OutOfFuel \<or> a = Throw InvalidPositionException"
proof (cases "deref sh this")
  case None
  with assms show ?thesis by (simp add: rewire_def)
next
  case (Some c)
  obtain r2 sh2 where l1: "for_each (using_cells c) (unlink this)
      (store sh this (Some (c\<lparr>impl := new_impl\<rparr>))) = (r2, sh2)"
    by (cases "for_each (using_cells c) (unlink this) (store sh this (Some (c\<lparr>impl := new_impl\<rparr>)))")
  have a2: "b = NullDeref" if "r2 = Inl b" for b
    by (rule for_each_abort [OF l1 [unfolded that]]) (rule unlink_abort)
  show ?thesis
  proof (cases r2)
    case (Inl b)
    with assms Some l1 a2 show ?thesis by (simp add: rewire_def)
  next
    case (Inr u)
    show ?thesis
    proof (cases "deref sh2 this")
      case None
      with assms Some l1 Inr show ?thesis by (simp add: rewire_def)
    next
      case c2: (Some c2)
      obtain r4 sh4 where l2: "for_each (Impl_GetReferencedCells new_impl) (add_edge pf fuel this)
          (store sh2 this (Some (c2\<lparr>using_cells := []\<rparr>))) = (r4, sh4)"
        by (cases "for_each (Impl_GetReferencedCells new_impl) (add_edge pf fuel this)
          (store sh2 this (Some (c2\<lparr>using_cells := []\<rparr>)))")
      have a4: "b = NullDeref \<or> b = OutOfFuel \<or> b = Throw InvalidPositionException"
        if "r4 = Inl b" for b
        by (rule for_each_abort [OF l2 [unfolded that]]) (rule add_edge_abort)
      show ?thesis
      proof (cases r4)
        case (Inl b)
        with assms Some l1 Inr c2 l2 a4 show ?thesis by (simp add: rewire_def)
      next
        case r: (Inr u4)
        with assms Some l1 Inr c2 l2 have "ResetCache fuel this True sh4 = (Inl a, sh')"
          by (simp add: rewire_def)
        from ResetCache_abort [OF this] show ?thesis by blast
      qed
    qed
  qed
qed

text \<open>The state in which \<open>SetCell\<close> throws \<open>CircularDependencyException\<close>: the grid has
  been grown, the target and the referenced cells exist, nothing else has happened.\<close>

lemma SetCell_circular_state:
  assumes "Sheet_SetCell pf fuel pos text sh = (Inl (Throw CircularDependencyException), sh')"
  shows "IsValid pos \<and> extends (materialised sh pos) sh'"
proof -
  have v: "IsValid pos"
    using assms by (cases "IsValid pos") (simp_all add: Sheet_SetCell_invalid)
  obtain r0 sh0 where c: "candidate pf fuel text (materialised sh pos) = (r0, sh0)"
    by (cases "candidate pf fuel text (materialised sh pos)")
  note ce = candidate_extends [OF c]
  show ?thesis
  proof (cases r0)
    case (Inl b)
    with assms c ce show ?thesis
      by (auto simp: Sheet_SetCell_valid [OF v] Cell_Set_unfold)
  next
    case (Inr new_impl)
    show ?thesis
    proof (cases "CheckCircularDependencies sh0 new_impl pos")
      case (Inl b)
      with assms c Inr show ?thesis
        by (auto simp: Sheet_SetCell_valid [OF v] Cell_Set_unfold dest: CheckCircularDependencies_abort)
    next
      case found: (Inr found)
      show ?thesis
      proof (cases found)
        case True
        with assms c Inr found have "sh' = sh0"
          by (simp add: Sheet_SetCell_valid [OF v] Cell_Set_unfold)
        with ce v show ?thesis by simp
      next
        case False
        with assms c Inr found
        have "rewire pf fuel pos new_impl sh0 = (Inl (Throw CircularDependencyException), sh')"
          by (simp add: Sheet_SetCell_valid [OF v] Cell_Set_unfold)
        from rewire_abort [OF this] show ?thesis by simp
      qed
    qed
  qed
qed

lemma sheet_A1_reached: "Sheet_SetCell demo_parser 1 A1 ''=B1'' [] = (Inr (), sheet_A1)"
  by code_simp


text \<open>
  C9. When \<open>SetCell\<close> is called at a valid position without a cell and throws
  \<open>CircularDependencyException\<close>, the grid covers the position afterwards and the
  non-const \<open>GetCell\<close> returns a cell there, with empty text: the target was created as an
  empty cell before the cycle check.
\<close>

theorem C9_failed_SetCell_materialises_target:
  assumes "Sheet_SetCell pf fuel pos text sh = (Inl (Throw CircularDependencyException), sh')"
    and "Sheet_GetCell sh pos = Inr None"
  shows "in_extent sh' pos \<and> Sheet_GetCell sh' pos = Inr (Some pos)
       \<and> (\<exists>c. deref sh' pos = Some c \<and> impl c = EmptyImpl \<and> Cell_GetText c = [])"
proof -
  from SetCell_circular_state [OF assms(1)]
  have v: "IsValid pos" and e: "extends (materialised sh pos) sh'" by simp_all
  from v assms(2) have "deref sh pos = None" by (rule Sheet_GetCell_None_deref)
  then have "deref (materialised sh pos) pos = Some new_Cell"
    by (simp add: deref_materialised [OF v])
  with e [unfolded extends_def, rule_format, of pos] have d: "deref sh' pos = Some new_Cell"
    by simp
  then have r: "in_extent sh' pos" "slot sh' pos = Some new_Cell"
    by (auto dest: deref_Some_range)
  with v have "Sheet_GetCell sh' pos = Inr (Some pos)"
    by (simp add: Sheet_GetCell_def slot_get_def)
  with r d show ?thesis
    by (simp add: Cell_GetText_def new_Cell_def)
qed

theorem C9_failed_SetCell_materialises_target_witness:
  "Sheet_GetCell [] A1 = Inr None
   \<and> Sheet_SetCell demo_parser 1 A1 ''=A1'' [] = (Inl (Throw CircularDependencyException), [[Some new_Cell]])
   \<and> in_extent [[Some new_Cell]] A1
   \<and> Sheet_GetCell [[Some new_Cell]] A1 = Inr (Some A1)
   \<and> (\<exists>c. deref [[Some new_Cell]] A1 = Some c \<and> impl c = EmptyImpl \<and> Cell_GetText c = [])"
proof -
  have a: "Sheet_GetCell [] A1 = Inr None" by code_simp
  have b: "Sheet_SetCell demo_parser 1 A1 ''=A1'' [] = (Inl (Throw CircularDependencyException), [[Some new_Cell]])"
    by code_simp
  from C9_failed_SetCell_materialises_target [OF b a] a b show ?thesis by simp
qed

section \<open>Printable size\<close>

lemma scan_row_none:
  "\<forall>c<n. \<not> printable cs c \<Longrightarrow> scan_row cs r n sz = sz"
proof (induction n)
  case 0
  then show ?case by simp
next
  case (Suc n)
  then have "\<not> printable cs n" and "\<forall>c<n. \<not> printable cs c" by simp_all
  with Suc.IH show ?case
    by (auto simp: printable_def split: option.splits)
qed

lemma scan_row_some:
  "\<exists>c<n. printable cs c \<Longrightarrow>
     \<exists>c<n. printable cs c \<and> (\<forall>c'<n. printable cs c' \<longrightarrow> c' \<le> c)
          \<and> scan_row cs r n sz
              = sz\<lparr>rows := max (rows sz) (int r + 1), cols := max (cols sz) (int c + 1)\<rparr>"
proof (induction n)
  case 0
  then show ?case by simp
next
  case (Suc n)
  show ?case
  proof (cases "printable cs n")
    case True
    then have "scan_row cs r (Suc n) sz
        = sz\<lparr>rows := max (rows sz) (int r + 1), cols := max (cols sz) (int n + 1)\<rparr>"
      by (auto simp: printable_def)
    with True show ?thesis
      by (intro exI [of _ n]) auto
  next
    case False
    with Suc.prems have "\<exists>c<n. printable cs c" by (metis less_Suc_eq)
    from Suc.IH [OF this] obtain c where c: "c < n" "printable cs c"
      "\<forall>c'<n. printable cs c' \<longrightarrow> c' \<le> c"
      "scan_row cs r n sz = sz\<lparr>rows := max (rows sz) (int r + 1), cols := max (cols sz) (int c + 1)\<rparr>"
      by blast
    from False have "scan_row cs r (Suc n) sz = scan_row cs r n sz"
      by (auto simp: printable_def split: option.splits)
    with c False show ?thesis
      by (intro exI [of _ c]) (auto simp: less_Suc_eq)
  qed
qed

lemma covers_step:
  assumes "covers sh k sz"
  shows "covers sh (Suc k) (scan_row (sh ! k) k (length (sh ! k)) sz)"
proof (cases "\<exists>c<length (sh ! k). printable (sh ! k) c")
  case False
  then have "scan_row (sh ! k) k (length (sh ! k)) sz = sz"
    by (intro scan_row_none) simp
  with assms False show ?thesis
    unfolding covers_def by (auto simp: less_Suc_eq)
next
  case True
  from scan_row_some [OF True, of k sz] obtain c where c: "c < length (sh ! k)" "printable (sh ! k) c"
    "\<forall>c'<length (sh ! k). printable (sh ! k) c' \<longrightarrow> c' \<le> c"
    "scan_row (sh ! k) k (length (sh ! k)) sz
       = sz\<lparr>rows := max (rows sz) (int k + 1), cols := max (cols sz) (int c + 1)\<rparr>"
    by blast
  let ?sz = "sz\<lparr>rows := max (rows sz) (int k + 1), cols := max (cols sz) (int c + 1)\<rparr>"
  from assms have
    a1: "\<forall>r<k. \<forall>c<length (sh ! r). printable (sh ! r) c \<longrightarrow> int r < rows sz \<and> int c < cols sz"
    and a2: "rows sz = 0 \<or> (\<exists>r<k. \<exists>c<length (sh ! r). printable (sh ! r) c \<and> rows sz = int r + 1)"
    and a3: "cols sz = 0 \<or> (\<exists>r<k. \<exists>c<length (sh ! r). printable (sh ! r) c \<and> cols sz = int c + 1)"
    and a4: "0 \<le> rows sz" "0 \<le> cols sz"
    unfolding covers_def by blast+
  have b1: "\<forall>r<Suc k. \<forall>c<length (sh ! r). printable (sh ! r) c \<longrightarrow> int r < rows ?sz \<and> int c < cols ?sz"
  proof (intro allI impI)
    fix r c'
    assume r: "r < Suc k" and c': "c' < length (sh ! r)" and p: "printable (sh ! r) c'"
    show "int r < rows ?sz \<and> int c' < cols ?sz"
    proof (cases "r = k")
      case True
      with c' p c(3) have "c' \<le> c" by simp
      with True show ?thesis by (simp add: max_def)
    next
      case False
      with r have "r < k" by simp
      with a1 c' p have "int r < rows sz \<and> int c' < cols sz" by blast
      then show ?thesis by (simp add: max_def)
    qed
  qed
  have rk: "rows ?sz = int k + 1"
  proof -
    from a2 have "rows sz \<le> int k + 1" by auto
    then show ?thesis by simp
  qed
  have b2: "rows ?sz = 0 \<or> (\<exists>r<Suc k. \<exists>c<length (sh ! r). printable (sh ! r) c \<and> rows ?sz = int r + 1)"
    using c(1,2) rk by blast
  have b3: "cols ?sz = 0 \<or> (\<exists>r<Suc k. \<exists>c<length (sh ! r). printable (sh ! r) c \<and> cols ?sz = int c + 1)"
  proof (cases "cols sz \<le> int c + 1")
    case True
    then have "cols ?sz = int c + 1" by simp
    with c(1,2) show ?thesis by blast
  next
    case False
    then have e: "cols ?sz = cols sz" by simp
    from False a4 have "cols sz \<noteq> 0" by linarith
    with a3 obtain r' c' where "r' < k" "c' < length (sh ! r')" "printable (sh ! r') c'"
      "cols sz = int c' + 1" by blast
    then have "r' < Suc k \<and> c' < length (sh ! r') \<and> printable (sh ! r') c' \<and> cols ?sz = int c' + 1"
      using e by simp
    then show ?thesis by blast
  qed
  have b4: "0 \<le> rows ?sz" "0 \<le> cols ?sz" using a4 by simp_all
  from b1 b2 b3 b4 show ?thesis
    unfolding covers_def c(4) by blast
qed

lemma covers_fold:
  "k \<le> length sh \<Longrightarrow>
     covers sh k (fold (\<lambda>r sz. scan_row (sh ! r) r (length (sh ! r)) sz) [0..<k] \<lparr>rows = 0, cols = 0\<rparr>)"
proof (induction k)
  case 0
  show ?case by (simp add: covers_def)
next
  case (Suc k)
  then have "covers sh k (fold (\<lambda>r sz. scan_row (sh ! r) r (length (sh ! r)) sz) [0..<k] \<lparr>rows = 0, cols = 0\<rparr>)"
    by simp
  from covers_step [OF this] show ?case by simp
qed

lemma covers_GetPrintableSize: "covers sh (length sh) (GetPrintableSize sh)"
  unfolding GetPrintableSize_def by (rule covers_fold) simp

lemma deref_printable:
  "(\<exists>c. deref sh p = Some c \<and> Cell_GetText c \<noteq> []) \<longleftrightarrow>
     0 \<le> row p \<and> 0 \<le> col p \<and> nat (row p) < length sh \<and> nat (col p) < length (sh ! nat (row p))
     \<and> printable (sh ! nat (row p)) (nat (col p))"
  by (auto simp: deref_def in_extent_def slot_def printable_def)

text \<open>
  C8. \<open>GetPrintableSize\<close> is the smallest rectangle anchored at \<open>(0, 0)\<close> that covers every
  cell with non-empty text: every such cell lies strictly inside it, \<open>rows\<close> is 0 or one
  more than the row of such a cell, \<open>cols\<close> is 0 or one more than the column of such a
  cell, and it is \<open>(0, 0)\<close> when there is no such cell.
\<close>

theorem C8_GetPrintableSize_bounding_box:
  "(\<forall>p c. deref sh p = Some c \<and> Cell_GetText c \<noteq> [] \<longrightarrow>
        row p < rows (GetPrintableSize sh) \<and> col p < cols (GetPrintableSize sh))
   \<and> (rows (GetPrintableSize sh) = 0
        \<or> (\<exists>p c. deref sh p = Some c \<and> Cell_GetText c \<noteq> [] \<and> rows (GetPrintableSize sh) = row p + 1))
   \<and> (cols (GetPrintableSize sh) = 0
        \<or> (\<exists>p c. deref sh p = Some c \<and> Cell_GetText c \<noteq> [] \<and> cols (GetPrintableSize sh) = col p + 1))
   \<and> ((\<forall>p c. deref sh p = Some c \<longrightarrow> Cell_GetText c = []) \<longrightarrow>
        GetPrintableSize sh = \<lparr>rows = 0, cols = 0\<rparr>)"
proof -
  let ?sz = "GetPrintableSize sh"
  from covers_GetPrintableSize [of sh] have
    a1: "\<forall>r<length sh. \<forall>c<length (sh ! r). printable (sh ! r) c \<longrightarrow> int r < rows ?sz \<and> int c < cols ?sz"
    and a2: "rows ?sz = 0 \<or> (\<exists>r<length sh. \<exists>c<length (sh ! r). printable (sh ! r) c \<and> rows ?sz = int r + 1)"
    and a3: "cols ?sz = 0 \<or> (\<exists>r<length sh. \<exists>c<length (sh ! r). printable (sh ! r) c \<and> cols ?sz = int c + 1)"
    unfolding covers_def by blast+
  have at: "\<exists>p cell. deref sh p = Some cell \<and> Cell_GetText cell \<noteq> [] \<and> row p = int r \<and> col p = int c"
    if "r < length sh" "c < length (sh ! r)" "printable (sh ! r) c" for r c
  proof -
    from that have "\<exists>cell. deref sh (Position (int r) (int c)) = Some cell \<and> Cell_GetText cell \<noteq> []"
      by (simp add: deref_printable)
    then show ?thesis by (metis Position.sel)
  qed
  have c1: "\<forall>p c. deref sh p = Some c \<and> Cell_GetText c \<noteq> [] \<longrightarrow> row p < rows ?sz \<and> col p < cols ?sz"
  proof (intro allI impI)
    fix p c
    assume "deref sh p = Some c \<and> Cell_GetText c \<noteq> []"
    then have "\<exists>c. deref sh p = Some c \<and> Cell_GetText c \<noteq> []" by blast
    then have r: "0 \<le> row p" "0 \<le> col p" "nat (row p) < length sh"
      "nat (col p) < length (sh ! nat (row p))" "printable (sh ! nat (row p)) (nat (col p))"
      unfolding deref_printable by simp_all
    with a1 have "int (nat (row p)) < rows ?sz \<and> int (nat (col p)) < cols ?sz" by blast
    with r show "row p < rows ?sz \<and> col p < cols ?sz" by simp
  qed
  have c2: "rows ?sz = 0
      \<or> (\<exists>p c. deref sh p = Some c \<and> Cell_GetText c \<noteq> [] \<and> rows ?sz = row p + 1)"
  proof (cases "rows ?sz = 0")
    case False
    with a2 obtain r c where "r < length sh" "c < length (sh ! r)" "printable (sh ! r) c"
      "rows ?sz = int r + 1" by blast
    with at [of r c] obtain p cell where "deref sh p = Some cell" "Cell_GetText cell \<noteq> []"
      "rows ?sz = row p + 1" by auto
    then show ?thesis by blast
  qed simp
  have c3: "cols ?sz = 0
      \<or> (\<exists>p c. deref sh p = Some c \<and> Cell_GetText c \<noteq> [] \<and> cols ?sz = col p + 1)"
  proof (cases "cols ?sz = 0")
    case False
    with a3 obtain r c where "r < length sh" "c < length (sh ! r)" "printable (sh ! r) c"
      "cols ?sz = int c + 1" by blast
    with at [of r c] obtain p cell where "deref sh p = Some cell" "Cell_GetText cell \<noteq> []"
      "cols ?sz = col p + 1" by auto
    then show ?thesis by blast
  qed simp
  have c4: "(\<forall>p c. deref sh p = Some c \<longrightarrow> Cell_GetText c = []) \<longrightarrow> ?sz = \<lparr>rows = 0, cols = 0\<rparr>"
  proof
    assume "\<forall>p c. deref sh p = Some c \<longrightarrow> Cell_GetText c = []"
    with c2 c3 have "rows ?sz = 0" "cols ?sz = 0" by blast+
    then show "?sz = \<lparr>rows = 0, cols = 0\<rparr>" by simp
  qed
  from c1 c2 c3 c4 show ?thesis by blast
qed

theorem C8_GetPrintableSize_bounding_box_witness:
  "GetPrintableSize sheet_A1 = \<lparr>rows = 1, cols = 1\<rparr>
   \<and> map_option Cell_GetText (deref sheet_A1 A1) = Some ''=B1''
   \<and> map_option Cell_GetText (deref sheet_A1 B1) = Some []
   \<and> row A1 < rows (GetPrintableSize sheet_A1) \<and> col A1 < cols (GetPrintableSize sheet_A1)
   \<and> GetPrintableSize [] = \<lparr>rows = 0, cols = 0\<rparr>"
proof -
  have d: "deref sheet_A1 A1 = Some \<lparr>impl = FormulaImpl (ref_ast B1 ''B1'') None, calculated_cells = [],
             using_cells = [B1], pos0 = Position 0 0\<rparr>"
    "deref sheet_A1 B1 = Some \<lparr>impl = EmptyImpl, calculated_cells = [A1], using_cells = [],
        pos0 = Position 0 0\<rparr>"
    by code_simp+
  have t: "Cell_GetText \<lparr>impl = FormulaImpl (ref_ast B1 ''B1'') None, calculated_cells = [],
             using_cells = [B1], pos0 = Position 0 0\<rparr> = ''=B1''"
    by (simp add: Cell_GetText_def FORMULA_SIGN_def ref_ast_def)
  have s: "GetPrintableSize sheet_A1 = \<lparr>rows = 1, cols = 1\<rparr>" by code_simp
  have e: "\<forall>p c. deref [] p = Some c \<longrightarrow> Cell_GetText c = []"
    by (auto simp: deref_def in_extent_def)
  from C8_GetPrintableSize_bounding_box [of sheet_A1, THEN conjunct1, rule_format, of A1, OF conjI, OF d(1)] t
  have "row A1 < rows (GetPrintableSize sheet_A1) \<and> col A1 < cols (GetPrintableSize sheet_A1)"
    by simp
  moreover from C8_GetPrintableSize_bounding_box [of "[]"] e
  have "GetPrintableSize [] = \<lparr>rows = 0, cols = 0\<rparr>" by blast
  ultimately show ?thesis
    using d s t by (simp add: Cell_GetText_def)
qed

section \<open>The dependency edges\<close>

lemma uses_rel_iff:
  "(a, b) \<in> uses_rel sh \<longleftrightarrow> (\<exists>c. deref sh a = Some c \<and> b \<in> set (using_cells c))"
  by (simp add: uses_rel_def)

lemma used_by_rel_iff:
  "(a, b) \<in> used_by_rel sh \<longleftrightarrow> (\<exists>c. deref sh a = Some c \<and> b \<in> set (calculated_cells c))"
  by (simp add: used_by_rel_def)

lemma edges_okD: "edges_ok sh \<Longrightarrow> (a, b) \<in> uses_rel sh \<longleftrightarrow> (b, a) \<in> used_by_rel sh"
  unfolding edges_ok_def by auto

lemma edges_ok_symmetric:
  assumes "edges_ok sh" "deref sh a = Some ca" "deref sh b = Some cb"
  shows "b \<in> set (using_cells ca) \<longleftrightarrow> a \<in> set (calculated_cells cb)"
proof -
  have "b \<in> set (using_cells ca) \<longleftrightarrow> (a, b) \<in> uses_rel sh"
    using assms(2) by (simp add: uses_rel_iff)
  also have "\<dots> \<longleftrightarrow> (b, a) \<in> used_by_rel sh" by (rule edges_okD [OF assms(1)])
  also have "\<dots> \<longleftrightarrow> a \<in> set (calculated_cells cb)"
    using assms(3) by (simp add: used_by_rel_iff)
  finally show ?thesis .
qed

lemma edges_ok_uses_live:
  assumes "edges_ok sh" "deref sh a = Some c" "b \<in> set (using_cells c)"
  shows "b \<in> live sh"
proof -
  from assms(2,3) have "(a, b) \<in> uses_rel sh" by (auto simp: uses_rel_iff)
  with assms(1) have "(b, a) \<in> used_by_rel sh" by (simp add: edges_okD)
  then show ?thesis by (auto simp: used_by_rel_iff live_def)
qed

lemma edges_ok_used_by_live:
  assumes "edges_ok sh" "deref sh a = Some c" "b \<in> set (calculated_cells c)"
  shows "b \<in> live sh"
proof -
  from assms(2,3) have "(a, b) \<in> used_by_rel sh" by (auto simp: used_by_rel_iff)
  with assms(1) have "(b, a) \<in> uses_rel sh" by (simp add: edges_okD)
  then show ?thesis by (auto simp: uses_rel_iff live_def)
qed

lemma edges_ok_not_live:
  assumes "edges_ok sh" "deref sh p = None"
  shows "(a, p) \<notin> uses_rel sh" "(a, p) \<notin> used_by_rel sh"
    "(p, a) \<notin> uses_rel sh" "(p, a) \<notin> used_by_rel sh"
proof -
  show 3: "(p, a) \<notin> uses_rel sh" and 4: "(p, a) \<notin> used_by_rel sh" for a
    using assms(2) by (auto simp: uses_rel_iff used_by_rel_iff)
  show "(a, p) \<notin> uses_rel sh" using 4 [of a] edges_okD [OF assms(1), of a p] by simp
  show "(a, p) \<notin> used_by_rel sh" using 3 [of a] edges_okD [OF assms(1), of p a] by simp
qed

lemma deref_Nil [simp]: "deref [] p = None"
  by (auto simp: deref_def in_extent_def)

lemma edges_ok_empty: "edges_ok []"
  by (simp add: edges_ok_def uses_rel_def used_by_rel_def)

text \<open>The effect of single steps on the two relations.\<close>

lemma rel_store_same_edges:
  assumes "deref sh p = Some c" "using_cells c' = using_cells c" "calculated_cells c' = calculated_cells c"
  shows "uses_rel (store sh p (Some c')) = uses_rel sh"
    and "used_by_rel (store sh p (Some c')) = used_by_rel sh"
    and "live (store sh p (Some c')) = live sh"
  using assms by (auto simp: uses_rel_def used_by_rel_def live_def deref_store_live split: if_splits)

lemma rel_materialised:
  assumes "IsValid p"
  shows "uses_rel (materialised sh p) = uses_rel sh"
    and "used_by_rel (materialised sh p) = used_by_rel sh"
    and "live (materialised sh p) = insert p (live sh)"
  using assms
  by (auto simp: uses_rel_def used_by_rel_def live_def deref_materialised new_Cell_def
      split: if_splits option.splits)

lemma set_uset_insert [simp]: "set (uset_insert x xs) = insert x (set xs)"
  by (auto simp: uset_insert_def)

lemma set_uset_erase [simp]: "set (uset_erase x xs) = set xs - {x}"
  by (auto simp: uset_erase_def)

lemma unlink_live:
  assumes "deref sh used = Some u"
  shows "unlink this used sh
           = (Inr (), store sh used (Some (u\<lparr>calculated_cells := uset_erase this (calculated_cells u)\<rparr>)))"
  using assms by (simp add: unlink_def)

lemma rel_unlink:
  assumes "deref sh used = Some u" "unlink this used sh = (r, sh')"
  shows "r = Inr ()" and "uses_rel sh' = uses_rel sh"
    and "used_by_rel sh' = used_by_rel sh - {(used, this)}"
    and "live sh' = live sh"
    and "\<And>q. map_option impl (deref sh' q) = map_option impl (deref sh q)"
  using assms
  by (auto simp: unlink_live uses_rel_def used_by_rel_def live_def deref_store_live split: if_splits)

lemma rel_link:
  assumes "deref sh this = Some c" "deref sh used = Some u" "link this used sh = (r, sh')"
  shows "r = Inr ()" and "uses_rel sh' = insert (this, used) (uses_rel sh)"
    and "used_by_rel sh' = insert (used, this) (used_by_rel sh)"
    and "live sh' = live sh"
    and "\<And>q. map_option impl (deref sh' q) = map_option impl (deref sh q)"
proof -
  let ?c1 = "c\<lparr>using_cells := uset_insert used (using_cells c)\<rparr>"
  let ?sh1 = "store sh this (Some ?c1)"
  have d1: "deref ?sh1 q = (if q = this then Some ?c1 else deref sh q)" for q
    using assms(1) by (simp add: deref_store_live)
  let ?u = "if used = this then ?c1 else u"
  let ?u1 = "?u\<lparr>calculated_cells := uset_insert this (calculated_cells ?u)\<rparr>"
  have du: "deref ?sh1 used = Some ?u" using assms(2) by (simp add: d1)
  from assms(1,3) du have r: "r = Inr ()" and s: "sh' = store ?sh1 used (Some ?u1)"
    by (simp_all add: link_def Let_def)
  have d2: "deref sh' q = (if q = used then Some ?u1 else if q = this then Some ?c1 else deref sh q)" for q
    unfolding s using du by (simp add: deref_store_live d1)
  show "r = Inr ()" by (rule r)
  show "uses_rel sh' = insert (this, used) (uses_rel sh)"
    using assms(1,2) by (auto simp: uses_rel_def d2 split: if_splits)
  show "used_by_rel sh' = insert (used, this) (used_by_rel sh)"
    using assms(1,2) by (auto simp: used_by_rel_def d2 split: if_splits)
  show "live sh' = live sh"
    using assms(1,2) by (auto simp: live_def d2 split: if_splits)
  show "map_option impl (deref sh' q) = map_option impl (deref sh q)" for q
    using assms(1,2) by (auto simp: d2)
qed

lemma rel_unlink_all:
  assumes "for_each us (unlink this) sh = (r, sh')" "set us \<subseteq> live sh"
  shows "r = Inr () \<and> uses_rel sh' = uses_rel sh
       \<and> used_by_rel sh' = used_by_rel sh - {(u, this) | u. u \<in> set us}
       \<and> live sh' = live sh
       \<and> (\<forall>q. map_option impl (deref sh' q) = map_option impl (deref sh q))"
  using assms
proof (induction us arbitrary: sh)
  case Nil
  then show ?case by auto
next
  case (Cons u us)
  from Cons.prems(2) obtain cu where cu: "deref sh u = Some cu" by (auto simp: live_def)
  obtain r1 sh1 where s1: "unlink this u sh = (r1, sh1)" by (cases "unlink this u sh")
  note f = rel_unlink [OF cu s1]
  from Cons.prems(1) s1 f(1) have l: "for_each us (unlink this) sh1 = (r, sh')" by simp
  from Cons.prems(2) f(4) have "set us \<subseteq> live sh1" by simp
  from Cons.IH [OF l this] f show ?case by auto
qed

lemma Impl_ResetCache_idem [simp]: "Impl_ResetCache (Impl_ResetCache i) = Impl_ResetCache i"
  by (cases i) simp_all

lemma same_but_cache_refl: "same_but_cache c c"
  by (simp add: same_but_cache_def)

lemma same_but_cache_trans: "same_but_cache a b \<Longrightarrow> same_but_cache b c \<Longrightarrow> same_but_cache a c"
  by (simp add: same_but_cache_def)

lemma same_edges_at: "same_edges sh sh' \<Longrightarrow> rel_option same_but_cache (deref sh q) (deref sh' q)"
  by (simp add: same_edges_def)

lemma same_edges_refl: "same_edges sh sh"
  by (simp add: same_edges_def option.rel_refl same_but_cache_refl)

lemma same_edges_trans: "same_edges a b \<Longrightarrow> same_edges b c \<Longrightarrow> same_edges a c"
  unfolding same_edges_def
proof (intro allI)
  fix q
  assume 1: "\<forall>q. rel_option same_but_cache (deref a q) (deref b q)"
    and 2: "\<forall>q. rel_option same_but_cache (deref b q) (deref c q)"
  from 1 [rule_format, of q] 2 [rule_format, of q]
  show "rel_option same_but_cache (deref a q) (deref c q)"
    by (cases "deref a q"; cases "deref b q"; cases "deref c q")
       (auto intro: same_but_cache_trans)
qed

lemma same_edges_rel:
  assumes "same_edges sh sh'"
  shows "uses_rel sh' = uses_rel sh" "used_by_rel sh' = used_by_rel sh" "live sh' = live sh"
proof -
  note r = same_edges_at [OF assms]
  show "uses_rel sh' = uses_rel sh"
  proof (rule set_eqI, clarify)
    fix a b
    from r [of a] show "(a, b) \<in> uses_rel sh' \<longleftrightarrow> (a, b) \<in> uses_rel sh"
      by (cases "deref sh a"; cases "deref sh' a") (simp_all add: uses_rel_iff same_but_cache_def)
  qed
  show "used_by_rel sh' = used_by_rel sh"
  proof (rule set_eqI, clarify)
    fix a b
    from r [of a] show "(a, b) \<in> used_by_rel sh' \<longleftrightarrow> (a, b) \<in> used_by_rel sh"
      by (cases "deref sh a"; cases "deref sh' a") (simp_all add: used_by_rel_iff same_but_cache_def)
  qed
  show "live sh' = live sh"
  proof (rule set_eqI)
    fix a
    from r [of a] show "a \<in> live sh' \<longleftrightarrow> a \<in> live sh"
      by (cases "deref sh a"; cases "deref sh' a") (simp_all add: live_def)
  qed
qed

lemma same_edges_edges_ok: "same_edges sh sh' \<Longrightarrow> edges_ok sh' = edges_ok sh"
  by (simp add: edges_ok_def same_edges_rel)

lemma same_edges_store:
  assumes "deref sh p = Some c" "same_but_cache c c'"
  shows "same_edges sh (store sh p (Some c'))"
  unfolding same_edges_def using assms
  by (auto simp: deref_store_live option.rel_refl same_but_cache_refl)

lemma ResetCache_same_edges:
  "ResetCache fuel this force sh = (r, sh') \<Longrightarrow> same_edges sh sh'"
proof (induction fuel arbitrary: this force sh sh' r)
  case 0
  then show ?case by (simp add: same_edges_refl)
next
  case (Suc n)
  show ?case
  proof (cases "deref sh this")
    case None
    with Suc.prems show ?thesis by (simp add: same_edges_refl)
  next
    case (Some c)
    show ?thesis
    proof (cases "Impl_HasCache (impl c) \<or> force")
      case False
      with Suc.prems Some show ?thesis by (simp add: same_edges_refl)
    next
      case True
      let ?s1 = "store sh this (Some (c\<lparr>impl := Impl_ResetCache (impl c)\<rparr>))"
      from True Suc.prems Some have
        l: "for_each (calculated_cells c) (\<lambda>dependent s. ResetCache n dependent False s) ?s1 = (r, sh')"
        by simp
      have s1: "same_edges sh ?s1"
        by (rule same_edges_store [OF Some]) (simp add: same_but_cache_def)
      have "same_edges sh sh' \<and> (\<forall>a. r = Inl a \<longrightarrow> True)"
      proof (rule for_each_invariant [OF l, where I = "same_edges sh" and A = "\<lambda>a. True"])
        show "same_edges sh ?s1" by (rule s1)
      next
        fix x t r t'
        assume "same_edges sh t" "ResetCache n x False t = (r, t')"
        with Suc.IH [of x False t r t'] show "same_edges sh t' \<and> (\<forall>a. r = Inl a \<longrightarrow> True)"
          by (auto intro: same_edges_trans)
      qed
      then show ?thesis by simp
    qed
  qed
qed

lemma extends_rel:
  assumes "extends sh sh'"
  shows "uses_rel sh' = uses_rel sh" "used_by_rel sh' = used_by_rel sh" "live sh \<subseteq> live sh'"
proof -
  have e: "deref sh' q = deref sh q \<or> (deref sh q = None \<and> deref sh' q = Some new_Cell)" for q
    using assms by (simp add: extends_def)
  show "uses_rel sh' = uses_rel sh"
  proof (rule set_eqI, clarify)
    fix a b
    from e [of a] show "(a, b) \<in> uses_rel sh' \<longleftrightarrow> (a, b) \<in> uses_rel sh"
      by (cases "deref sh a") (auto simp: uses_rel_iff new_Cell_def)
  qed
  show "used_by_rel sh' = used_by_rel sh"
  proof (rule set_eqI, clarify)
    fix a b
    from e [of a] show "(a, b) \<in> used_by_rel sh' \<longleftrightarrow> (a, b) \<in> used_by_rel sh"
      by (cases "deref sh a") (auto simp: used_by_rel_iff new_Cell_def)
  qed
  show "live sh \<subseteq> live sh'"
  proof
    fix a
    assume "a \<in> live sh"
    with e [of a] show "a \<in> live sh'" by (auto simp: live_def)
  qed
qed

lemma extends_edges_ok: "extends sh sh' \<Longrightarrow> edges_ok sh' = edges_ok sh"
  by (simp add: edges_ok_def extends_rel)

lemma GetConcreteCell_live:
  "IsValid p \<Longrightarrow> deref sh p = Some c \<Longrightarrow> GetConcreteCell sh p = Inr (Some p)"
  by (auto simp: GetConcreteCell_def slot_get_def dest: deref_Some_range)

lemma impl_frame_refl: "impl_frame sh sh"
  by (simp add: impl_frame_def)

lemma impl_frame_trans: "impl_frame a b \<Longrightarrow> impl_frame b c \<Longrightarrow> impl_frame a c"
  unfolding impl_frame_def
proof (intro allI)
  fix q
  assume 1: "\<forall>q. map_option impl (deref b q) = map_option impl (deref a q)
          \<or> (deref a q = None \<and> map_option impl (deref b q) = Some EmptyImpl)"
    and 2: "\<forall>q. map_option impl (deref c q) = map_option impl (deref b q)
          \<or> (deref b q = None \<and> map_option impl (deref c q) = Some EmptyImpl)"
  from 1 [rule_format, of q] 2 [rule_format, of q]
  show "map_option impl (deref c q) = map_option impl (deref a q)
          \<or> (deref a q = None \<and> map_option impl (deref c q) = Some EmptyImpl)"
    by (cases "deref a q"; cases "deref b q") auto
qed

lemma impl_frame_same:
  "(\<And>q. map_option impl (deref sh' q) = map_option impl (deref sh q)) \<Longrightarrow> impl_frame sh sh'"
  by (simp add: impl_frame_def)

lemma extends_impl_frame: "extends sh sh' \<Longrightarrow> impl_frame sh sh'"
  unfolding extends_def impl_frame_def
proof (intro allI)
  fix q
  assume "\<forall>q. deref sh' q = deref sh q \<or> deref sh q = None \<and> deref sh' q = Some new_Cell"
  from this [rule_format, of q]
  show "map_option impl (deref sh' q) = map_option impl (deref sh q)
          \<or> (deref sh q = None \<and> map_option impl (deref sh' q) = Some EmptyImpl)"
    by (auto simp: new_Cell_def)
qed

lemma edges_ok_link:
  assumes "edges_ok sh" "this \<in> live sh" "used \<in> live sh" "link this used sh = (r, sh')"
  shows "r = Inr () \<and> edges_ok sh' \<and> live sh' = live sh
       \<and> uses_rel sh' = insert (this, used) (uses_rel sh) \<and> impl_frame sh sh'"
proof -
  from assms(2,3) obtain c u where "deref sh this = Some c" "deref sh used = Some u"
    by (auto simp: live_def)
  note f = rel_link [OF this assms(4)]
  from assms(1) have "edges_ok sh'"
    unfolding edges_ok_def f(2,3) by auto
  moreover have "impl_frame sh sh'" by (rule impl_frame_same) (rule f(5))
  ultimately show ?thesis using f(1-4) by simp
qed

lemma add_edge_edges_ok:
  assumes "edges_ok s" "this \<in> live s" "add_edge pf fuel this p s = (r, s')"
  shows "edges_ok s' \<and> live s \<subseteq> live s' \<and> impl_frame s s'
       \<and> (r = Inr () \<longrightarrow> uses_rel s' = insert (this, p) (uses_rel s))"
proof (cases "GetConcreteCell s p")
  case (Inl a)
  with assms show ?thesis by (auto simp: add_edge_def impl_frame_refl)
next
  case (Inr ptr)
  show ?thesis
  proof (cases ptr)
    case (Some used)
    with Inr have u: "used = p" "p \<in> live s"
      by (auto simp: live_def dest: GetConcreteCell_Some_deref)
    from assms(3) Inr Some u have "link this p s = (r, s')" by (simp add: add_edge_def)
    from edges_ok_link [OF assms(1,2) u(2) this] show ?thesis by simp
  next
    case None
    with Inr have v: "IsValid p" and d: "deref s p = None"
      by (simp_all add: GetConcreteCell_None_deref)
    let ?m = "materialised s p"
    have m: "edges_ok ?m" "live ?m = insert p (live s)" "uses_rel ?m = uses_rel s"
      using assms(1) by (simp_all add: edges_ok_def rel_materialised [OF v])
    have mf: "impl_frame s ?m" by (rule extends_impl_frame [OF extends_materialised [OF v]])
    show ?thesis
    proof (cases "fuel = 0")
      case True
      with assms(3) Inr None have "s' = ?m" "r = Inl OutOfFuel"
        by (simp_all add: add_edge_def Sheet_SetCell_empty_absent [OF v d])
      with m mf show ?thesis by auto
    next
      case False
      have "deref ?m p = Some new_Cell" using d by (simp add: deref_materialised [OF v])
      then have g: "GetConcreteCell ?m p = Inr (Some p)" by (rule GetConcreteCell_live [OF v])
      from assms(3) Inr None False g have "link this p ?m = (r, s')"
        by (simp add: add_edge_def Sheet_SetCell_empty_absent [OF v d])
      from edges_ok_link [OF m(1) _ _ this] assms(2) m(2,3) impl_frame_trans [OF mf]
      show ?thesis by auto
    qed
  qed
qed

lemma add_edges_edges_ok:
  assumes "for_each ps (add_edge pf fuel this) s = (r, s')" "edges_ok s" "this \<in> live s"
  shows "edges_ok s' \<and> live s \<subseteq> live s' \<and> impl_frame s s'
       \<and> (r = Inr () \<longrightarrow> uses_rel s' = uses_rel s \<union> {this} \<times> set ps)"
  using assms
proof (induction ps arbitrary: s)
  case Nil
  then show ?case by (auto simp: impl_frame_refl)
next
  case (Cons p ps)
  obtain r1 s1 where b: "add_edge pf fuel this p s = (r1, s1)" by (cases "add_edge pf fuel this p s")
  note f = add_edge_edges_ok [OF Cons.prems(2,3) b]
  show ?case
  proof (cases r1)
    case (Inl a)
    with Cons.prems(1) b have "r = Inl a" "s' = s1" by simp_all
    with f show ?thesis by simp
  next
    case (Inr u)
    with Cons.prems(1) b have l: "for_each ps (add_edge pf fuel this) s1 = (r, s')" by simp
    from f Cons.prems(3) have "edges_ok s1" "this \<in> live s1" by auto
    from Cons.IH [OF l this] f Inr impl_frame_trans [of s s1 s'] show ?thesis by auto
  qed
qed

lemma rewire_stages:
  assumes "edges_ok sh0" "deref sh0 this = Some c" "rewire pf fuel this new_impl sh0 = (r, sh')"
  shows "\<exists>sh4. edges_ok sh4 \<and> live sh0 \<subseteq> live sh4
            \<and> impl_frame (store sh0 this (Some (c\<lparr>impl := new_impl\<rparr>))) sh4
            \<and> ((\<exists>a. r = Inl a \<and> sh' = sh4)
               \<or> (uses_rel sh4 = (uses_rel sh0 - {this} \<times> UNIV)
                                    \<union> {this} \<times> set (Impl_GetReferencedCells new_impl)
                  \<and> ResetCache fuel this True sh4 = (r, sh')))"
proof -
  note Some = assms(2)
  let ?sh1 = "store sh0 this (Some (c\<lparr>impl := new_impl\<rparr>))"
  have r1: "uses_rel ?sh1 = uses_rel sh0" "used_by_rel ?sh1 = used_by_rel sh0" "live ?sh1 = live sh0"
    by (rule rel_store_same_edges [OF Some]; simp)+
  obtain r2 sh2 where l1: "for_each (using_cells c) (unlink this) ?sh1 = (r2, sh2)"
    by (cases "for_each (using_cells c) (unlink this) ?sh1")
  have "set (using_cells c) \<subseteq> live ?sh1"
    using edges_ok_uses_live [OF assms(1) Some] r1(3) by auto
  from rel_unlink_all [OF l1 this] r1
  have r2: "r2 = Inr ()" "uses_rel sh2 = uses_rel sh0"
    "used_by_rel sh2 = used_by_rel sh0 - {(u, this) | u. u \<in> set (using_cells c)}"
    "live sh2 = live sh0"
    and i2: "\<And>q. map_option impl (deref sh2 q) = map_option impl (deref ?sh1 q)"
    by simp_all
  from Some r2(4) obtain c2 where c2: "deref sh2 this = Some c2" by (auto simp: live_def)
  let ?sh3 = "store sh2 this (Some (c2\<lparr>using_cells := []\<rparr>))"
  have d3: "deref ?sh3 q = (if q = this then Some (c2\<lparr>using_cells := []\<rparr>) else deref sh2 q)" for q
    using c2 by (simp add: deref_store_live)
  have u3: "uses_rel ?sh3 = uses_rel sh0 - {this} \<times> UNIV"
    unfolding r2(2) [symmetric] by (auto simp: uses_rel_def d3 split: if_splits)
  have b3: "used_by_rel ?sh3 = used_by_rel sh2"
    using c2 by (auto simp: used_by_rel_def d3 split: if_splits)
  have l3: "live ?sh3 = live sh0"
    unfolding r2(4) [symmetric] using c2 by (auto simp: live_def d3 split: if_splits)
  have i3: "impl_frame ?sh1 ?sh3"
  proof (rule impl_frame_same)
    fix q
    show "map_option impl (deref ?sh3 q) = map_option impl (deref ?sh1 q)"
      using c2 i2 [of q] by (auto simp: d3)
  qed
  have e3: "edges_ok ?sh3"
    unfolding edges_ok_def u3 b3 r2(3)
  proof (rule set_eqI, clarify)
    fix a b
    have "(this, b) \<in> uses_rel sh0 \<longleftrightarrow> b \<in> set (using_cells c)"
      using Some by (simp add: uses_rel_iff)
    with edges_okD [OF assms(1), of a b]
    show "(a, b) \<in> uses_rel sh0 - {this} \<times> UNIV \<longleftrightarrow>
        (a, b) \<in> (used_by_rel sh0 - {(u, this) | u. u \<in> set (using_cells c)})\<inverse>"
      by auto
  qed
  obtain r4 sh4 where l2: "for_each (Impl_GetReferencedCells new_impl) (add_edge pf fuel this) ?sh3 = (r4, sh4)"
    by (cases "for_each (Impl_GetReferencedCells new_impl) (add_edge pf fuel this) ?sh3")
  have t3: "this \<in> live ?sh3" using Some l3 by (auto simp: live_def)
  from add_edges_edges_ok [OF l2 e3 t3] l3 u3
  have f4: "edges_ok sh4" "live sh0 \<subseteq> live sh4" "impl_frame ?sh3 sh4"
    "r4 = Inr () \<longrightarrow> uses_rel sh4 = (uses_rel sh0 - {this} \<times> UNIV) \<union> {this} \<times> set (Impl_GetReferencedCells new_impl)"
    by simp_all
  note i4 = impl_frame_trans [OF i3 f4(3)]
  show ?thesis
  proof (cases r4)
    case (Inl a)
    with assms(3) Some l1 r2(1) c2 l2 have "r = Inl a" "sh' = sh4" by (simp_all add: rewire_def)
    with f4 i4 show ?thesis by blast
  next
    case (Inr u)
    with assms(3) Some l1 r2(1) c2 l2 have rc: "ResetCache fuel this True sh4 = (r, sh')"
      by (simp add: rewire_def)
    from Inr have "r4 = Inr ()" by simp
    with f4 have "uses_rel sh4 = (uses_rel sh0 - {this} \<times> UNIV)
        \<union> {this} \<times> set (Impl_GetReferencedCells new_impl)" by simp
    with f4(1,2) i4 rc show ?thesis by blast
  qed
qed

lemma rewire_edges_ok:
  assumes "edges_ok sh0" "rewire pf fuel this new_impl sh0 = (r, sh')"
  shows "edges_ok sh' \<and> live sh0 \<subseteq> live sh'
       \<and> (r = Inr () \<longrightarrow>
            uses_rel sh' = (uses_rel sh0 - {this} \<times> UNIV) \<union> {this} \<times> set (Impl_GetReferencedCells new_impl))"
proof (cases "deref sh0 this")
  case None
  with assms show ?thesis by (auto simp: rewire_def)
next
  case (Some c)
  from rewire_stages [OF assms(1) Some assms(2)] obtain sh4 where
    f4: "edges_ok sh4" "live sh0 \<subseteq> live sh4"
    and d: "(\<exists>a. r = Inl a \<and> sh' = sh4)
               \<or> (uses_rel sh4 = (uses_rel sh0 - {this} \<times> UNIV)
                                    \<union> {this} \<times> set (Impl_GetReferencedCells new_impl)
                  \<and> ResetCache fuel this True sh4 = (r, sh'))"
    by blast
  from d show ?thesis
  proof
    assume "\<exists>a. r = Inl a \<and> sh' = sh4"
    with f4 show ?thesis by auto
  next
    assume a: "uses_rel sh4 = (uses_rel sh0 - {this} \<times> UNIV)
                                    \<union> {this} \<times> set (Impl_GetReferencedCells new_impl)
                  \<and> ResetCache fuel this True sh4 = (r, sh')"
    then have "same_edges sh4 sh'" by (auto dest: ResetCache_same_edges)
    from same_edges_edges_ok [OF this] same_edges_rel [OF this] f4 a show ?thesis by simp
  qed
qed

lemma candidate_edges_ok:
  assumes "edges_ok sh" "candidate pf fuel text sh = (r, sh0)"
  shows "edges_ok sh0 \<and> live sh \<subseteq> live sh0 \<and> uses_rel sh0 = uses_rel sh"
proof -
  from candidate_extends [OF assms(2)] have e: "extends sh sh0" by simp
  from extends_edges_ok [OF e] extends_rel [OF e] assms(1) show ?thesis by simp
qed

lemma Cell_Set_edges_ok:
  assumes "edges_ok sh" "Cell_Set pf fuel this text pos sh = (r, sh')"
  shows "edges_ok sh' \<and> live sh \<subseteq> live sh'"
proof -
  obtain r0 sh0 where c: "candidate pf fuel text sh = (r0, sh0)"
    by (cases "candidate pf fuel text sh")
  note f = candidate_edges_ok [OF assms(1) c]
  show ?thesis
  proof (cases r0)
    case (Inl a)
    with assms(2) c have "sh' = sh0" by (simp add: Cell_Set_unfold)
    with f show ?thesis by simp
  next
    case (Inr new_impl)
    show ?thesis
    proof (cases "CheckCircularDependencies sh0 new_impl pos")
      case (Inl a)
      with assms(2) c Inr have "sh' = sh0" by (simp add: Cell_Set_unfold)
      with f show ?thesis by simp
    next
      case found: (Inr found)
      show ?thesis
      proof (cases found)
        case True
        with assms(2) c Inr found have "sh' = sh0" by (simp add: Cell_Set_unfold)
        with f show ?thesis by simp
      next
        case False
        with assms(2) c Inr found have "rewire pf fuel this new_impl sh0 = (r, sh')"
          by (simp add: Cell_Set_unfold)
        from rewire_edges_ok [OF _ this] f show ?thesis by auto
      qed
    qed
  qed
qed

lemma edges_ok_materialised: "IsValid p \<Longrightarrow> edges_ok (materialised sh p) = edges_ok sh"
  by (simp add: edges_ok_def rel_materialised)

lemma SetCell_edges_ok:
  assumes "edges_ok sh" "Sheet_SetCell pf fuel pos text sh = (r, sh')"
  shows "edges_ok sh' \<and> live sh \<subseteq> live sh'"
proof (cases "IsValid pos")
  case False
  with assms show ?thesis by (simp add: Sheet_SetCell_invalid)
next
  case True
  from assms(2) have "Cell_Set pf fuel pos text pos (materialised sh pos) = (r, sh')"
    by (simp add: Sheet_SetCell_valid [OF True])
  from Cell_Set_edges_ok [OF _ this] assms(1) rel_materialised(3) [OF True, of sh]
  show ?thesis by (auto simp: edges_ok_materialised [OF True])
qed

lemma Cell_Set_empty_no_uses:
  assumes "edges_ok sh" "Cell_Set pf fuel this [] pos sh = (Inr (), sh')"
  shows "(this, b) \<notin> uses_rel sh'"
proof -
  from assms(2) have "rewire pf fuel this EmptyImpl sh = (Inr (), sh')"
    by (simp add: Cell_Set_unfold candidate_def CheckCircularDependencies_no_refs)
  from rewire_edges_ok [OF assms(1) this] show ?thesis by simp
qed

lemma deref_store_None:
  assumes "deref sh p = Some c"
  shows "deref (store sh p None) q = (if q = p then None else deref sh q)"
  using deref_store_live [OF assms, of None q] .

lemma edges_ok_release:
  assumes "edges_ok sh" "deref sh p = Some c" "using_cells c = []" "calculated_cells c = []"
  shows "edges_ok (store sh p None)"
proof -
  have "uses_rel (store sh p None) = uses_rel sh"
    using assms(2,3) by (auto simp: uses_rel_def deref_store_None [OF assms(2)] split: if_splits)
  moreover have "used_by_rel (store sh p None) = used_by_rel sh"
    using assms(2,4) by (auto simp: used_by_rel_def deref_store_None [OF assms(2)] split: if_splits)
  ultimately show ?thesis using assms(1) by (simp add: edges_ok_def)
qed

lemma ClearCell_edges_ok:
  assumes "edges_ok sh" "Sheet_ClearCell pf fuel pos sh = (r, sh')"
  shows "edges_ok sh'
       \<and> (\<forall>p. p \<in> live sh \<and> p \<notin> live sh' \<longrightarrow>
             p = pos \<and> (\<exists>sh1 c1. Cell_Clear pf fuel pos sh = (Inr (), sh1) \<and> deref sh1 pos = Some c1
                          \<and> calculated_cells c1 = [] \<and> using_cells c1 = []
                          \<and> sh' = store sh1 pos None))"
proof (cases "IsValid pos \<and> in_extent sh pos \<and> slot sh pos \<noteq> None")
  case False
  with assms have "sh' = sh" by (auto simp: Sheet_ClearCell_def split: if_splits option.splits)
  with assms(1) show ?thesis by simp
next
  case True
  then obtain c where v: "IsValid pos" and e: "in_extent sh pos" and c: "slot sh pos = Some c"
    by auto
  from v e c have d: "deref sh pos = Some c" by (simp add: deref_def IsValid_def)
  obtain r1 sh1 where cl: "Cell_Clear pf fuel pos sh = (r1, sh1)" by (cases "Cell_Clear pf fuel pos sh")
  with d have cs: "Cell_Set pf fuel pos [] (pos0 c) sh = (r1, sh1)" by (simp add: Cell_Clear_def)
  from Cell_Set_edges_ok [OF assms(1) cs] have e1: "edges_ok sh1" and l1: "live sh \<subseteq> live sh1"
    by simp_all
  show ?thesis
  proof (cases r1)
    case (Inl a)
    with assms(2) v e c cl have "sh' = sh1" by (simp add: Sheet_ClearCell_def)
    with e1 l1 show ?thesis by auto
  next
    case (Inr u)
    from d l1 obtain c1 where d1: "deref sh1 pos = Some c1" by (auto simp: live_def)
    then have s1: "slot sh1 pos = Some c1" by (auto dest: deref_Some_range)
    show ?thesis
    proof (cases "IsReferenced c1")
      case True
      with assms(2) v e c cl Inr s1 have "sh' = sh1" by (simp add: Sheet_ClearCell_def)
      with e1 l1 show ?thesis by auto
    next
      case False
      with assms(2) v e c cl Inr s1 have s': "sh' = store sh1 pos None"
        by (simp add: Sheet_ClearCell_def)
      from False have cc: "calculated_cells c1 = []" by (simp add: IsReferenced_def)
      from Cell_Set_empty_no_uses [OF assms(1)] cs Inr have "\<And>b. (pos, b) \<notin> uses_rel sh1" by simp
      with d1 have "b \<notin> set (using_cells c1)" for b by (auto simp: uses_rel_iff)
      then have uc: "using_cells c1 = []" by (cases "using_cells c1") auto
      have "edges_ok sh'" unfolding s' by (rule edges_ok_release [OF e1 d1 uc cc])
      moreover have "p = pos" if "p \<in> live sh" "p \<notin> live sh'" for p
        using that l1 unfolding s' by (auto simp: live_def deref_store_None [OF d1] split: if_splits)
      ultimately show ?thesis using cl Inr d1 cc uc s' by auto
    qed
  qed
qed

lemma Execute_invariant:
  assumes "\<And>p t r t'. args p t = (r, t') \<Longrightarrow> R t t'"
    and "\<And>t. R t t" and "\<And>a b c. R a b \<Longrightarrow> R b c \<Longrightarrow> R a c"
  shows "Execute fp args e s = (r, s') \<Longrightarrow> R s s'"
proof (induction e arbitrary: s r s')
  case (NumberExpr d)
  then show ?case using assms(2) by simp
next
  case (CellExpr p)
  then show ?case using assms(1) by simp
next
  case (UnaryOpExpr op e)
  obtain r1 s1 where e: "Execute fp args e s = (r1, s1)" by (cases "Execute fp args e s")
  from UnaryOpExpr.IH [OF e] have "R s s1" .
  moreover from UnaryOpExpr.prems e have "s' = s1" by (cases r1) simp_all
  ultimately show ?case by simp
next
  case (BinaryOpExpr op l r0)
  obtain r1 s1 where l: "Execute fp args l s = (r1, s1)" by (cases "Execute fp args l s")
  from BinaryOpExpr.IH(1) [OF l] have 1: "R s s1" .
  show ?case
  proof (cases r1)
    case (Inl a)
    with BinaryOpExpr.prems l have "s' = s1" by simp
    with 1 show ?thesis by simp
  next
    case (Inr x)
    obtain r2 s2 where r: "Execute fp args r0 s1 = (r2, s2)" by (cases "Execute fp args r0 s1")
    from BinaryOpExpr.IH(2) [OF r] have 2: "R s1 s2" .
    from BinaryOpExpr.prems l Inr r have "s' = s2" by (cases r2) simp_all
    with assms(3) [OF 1 2] show ?thesis by simp
  qed
qed

lemma params_invariant:
  assumes "\<And>p t r t'. get_value p t = (r, t') \<Longrightarrow> R t t'" and "\<And>t. R t t"
  shows "params rd get_value pos sh = (r, sh') \<Longrightarrow> R sh sh'"
proof -
  assume p: "params rd get_value pos sh = (r, sh')"
  show ?thesis
  proof (cases "IsValid pos")
    case False
    with p assms(2) show ?thesis by (simp add: params_def)
  next
    case True
    show ?thesis
    proof (cases "Sheet_GetCell_const sh pos")
      case (Inl a)
      with p True assms(2) show ?thesis by (simp add: params_def)
    next
      case (Inr ptr)
      show ?thesis
      proof (cases ptr)
        case None
        with p True Inr assms(2) show ?thesis by (simp add: params_def)
      next
        case (Some cell)
        obtain r1 s1 where g: "get_value cell sh = (r1, s1)" by (cases "get_value cell sh")
        from p True Inr Some g have "sh' = s1"
          by (auto simp: params_def split: sum.splits CellValue.splits if_splits option.splits)
        with assms(1) [OF g] show ?thesis by simp
      qed
    qed
  qed
qed

lemma set_cache_same_edges: "same_edges sh (set_cache this v sh)"
proof (cases "deref sh this")
  case None
  then show ?thesis by (simp add: set_cache_def same_edges_refl)
next
  case (Some c)
  show ?thesis
  proof (cases "impl c")
    case (FormulaImpl f old)
    with Some have "set_cache this v sh = store sh this (Some (c\<lparr>impl := FormulaImpl f (Some v)\<rparr>))"
      by (simp add: set_cache_def)
    moreover have "same_but_cache c (c\<lparr>impl := FormulaImpl f (Some v)\<rparr>)"
      using FormulaImpl by (simp add: same_but_cache_def)
    ultimately show ?thesis using same_edges_store [OF Some] by simp
  qed (use Some in \<open>simp_all add: set_cache_def same_edges_refl\<close>)
qed

lemma Cell_GetValue_same_edges:
  "Cell_GetValue fp rd n this sh = (r, sh') \<Longrightarrow> same_edges sh sh'"
proof (induction n arbitrary: this sh r sh')
  case 0
  then show ?case by (simp add: same_edges_refl)
next
  case (Suc n)
  show ?case
  proof (cases "deref sh this")
    case None
    with Suc.prems show ?thesis by (simp add: same_edges_refl)
  next
    case (Some c)
    show ?thesis
    proof (cases "impl c")
      case EmptyImpl
      with Suc.prems Some show ?thesis by (simp add: same_edges_refl)
    next
      case (TextImpl t)
      with Suc.prems Some show ?thesis by (auto simp: same_edges_refl split: if_splits)
    next
      case (FormulaImpl f cache)
      show ?thesis
      proof (cases cache)
        case (Some v)
        with Suc.prems \<open>deref sh this = Some c\<close> FormulaImpl show ?thesis
          by (simp add: same_edges_refl)
      next
        case None
        obtain r0 s1 where x: "Execute fp (params rd (Cell_GetValue fp rd n)) (root_expr f) sh = (r0, s1)"
          by (cases "Execute fp (params rd (Cell_GetValue fp rd n)) (root_expr f) sh")
        have 1: "same_edges sh s1"
        proof (rule Execute_invariant [OF _ same_edges_refl same_edges_trans x])
          fix p t r t'
          assume pa: "params rd (Cell_GetValue fp rd n) p t = (r, t')"
          have ih: "same_edges u u'" if "Cell_GetValue fp rd n q u = (w, u')" for q u w u'
            using that by (rule Suc.IH)
          show "same_edges t t'"
            using params_invariant [of "Cell_GetValue fp rd n" same_edges rd p t r t'] ih same_edges_refl pa
            by blast
        qed
        from Suc.prems \<open>deref sh this = Some c\<close> FormulaImpl None x
        have "sh' = s1 \<or> (\<exists>v. sh' = set_cache this v s1)"
          by (auto simp: Formula_Evaluate_def split: sum.splits abort.splits thrown.splits)
        with 1 show ?thesis
          using same_edges_trans [OF 1 set_cache_same_edges] by auto
      qed
    qed
  qed
qed

section \<open>States that the public operations can reach\<close>

lemma edges_ok_iff: "edges_ok sh \<longleftrightarrow> symmetric_edges sh \<and> no_dangling sh"
proof
  assume e: "edges_ok sh"
  show "symmetric_edges sh \<and> no_dangling sh"
    unfolding symmetric_edges_def no_dangling_def
    using edges_ok_symmetric [OF e] edges_ok_uses_live [OF e] edges_ok_used_by_live [OF e]
    by blast
next
  assume a: "symmetric_edges sh \<and> no_dangling sh"
  show "edges_ok sh"
    unfolding edges_ok_def
  proof (rule set_eqI, clarify)
    fix x y
    show "(x, y) \<in> uses_rel sh \<longleftrightarrow> (x, y) \<in> (used_by_rel sh)\<inverse>"
    proof
      assume "(x, y) \<in> uses_rel sh"
      then obtain c where c: "deref sh x = Some c" "y \<in> set (using_cells c)"
        by (auto simp: uses_rel_iff)
      with a have "y \<in> live sh" unfolding no_dangling_def by blast
      then obtain d where d: "deref sh y = Some d" by (auto simp: live_def)
      with a c have "x \<in> set (calculated_cells d)" unfolding symmetric_edges_def by blast
      with d show "(x, y) \<in> (used_by_rel sh)\<inverse>" by (auto simp: used_by_rel_iff)
    next
      assume "(x, y) \<in> (used_by_rel sh)\<inverse>"
      then obtain d where d: "deref sh y = Some d" "x \<in> set (calculated_cells d)"
        by (auto simp: used_by_rel_iff)
      with a have "x \<in> live sh" unfolding no_dangling_def by blast
      then obtain c where c: "deref sh x = Some c" by (auto simp: live_def)
      with a d have "y \<in> set (using_cells c)" unfolding symmetric_edges_def by blast
      with c show "(x, y) \<in> uses_rel sh" by (auto simp: uses_rel_iff)
    qed
  qed
qed

lemma Cell_GetValue_edges_ok:
  assumes "edges_ok sh" "Cell_GetValue fp rd n this sh = (v, sh')"
  shows "edges_ok sh' \<and> live sh' = live sh"
  using Cell_GetValue_same_edges [OF assms(2)] assms(1)
  by (simp add: same_edges_edges_ok same_edges_rel)

lemma reachable_edges_ok: "reachable pf fp rd sh \<Longrightarrow> edges_ok sh"
proof (induction rule: reachable.induct)
  case reachable_init
  show ?case by (rule edges_ok_empty)
next
  case (reachable_SetCell s0 n p t r s1)
  then show ?case by (simp add: SetCell_edges_ok)
next
  case (reachable_ClearCell s0 n p r s1)
  then show ?case by (simp add: ClearCell_edges_ok)
next
  case (reachable_GetValue s0 n p v s1)
  then show ?case by (simp add: Cell_GetValue_edges_ok)
qed

text \<open>
  C3. In every state that the public operations can reach, the edges are symmetric: for
  two existing cells A and B, B is in \<open>using_cells_\<close> of A exactly when A is in
  \<open>calculated_cells_\<close> of B, and no edge set points to a cell that does not exist.
  \<open>SetCell\<close>, \<open>ClearCell\<close> and \<open>GetValue\<close> keep this, whatever their outcome; the other
  reads do not change the sheet. Only \<open>ClearCell\<close> releases a cell, only the one at its
  position, and only when \<open>calculated_cells_\<close> of that cell is empty at that moment.
\<close>

theorem C3_edge_symmetry_preserved:
  assumes "reachable pf fp rd sh"
  shows "symmetric_edges sh \<and> no_dangling sh
       \<and> (Sheet_SetCell pf fuel pos txt sh = (r, sh') \<longrightarrow>
            symmetric_edges sh' \<and> no_dangling sh' \<and> live sh \<subseteq> live sh')
       \<and> (Sheet_ClearCell pf fuel pos sh = (r, sh') \<longrightarrow>
            symmetric_edges sh' \<and> no_dangling sh'
            \<and> (\<forall>p. p \<in> live sh \<and> p \<notin> live sh' \<longrightarrow>
                  p = pos \<and> (\<exists>sh1 c1. Cell_Clear pf fuel pos sh = (Inr (), sh1)
                               \<and> deref sh1 pos = Some c1
                               \<and> calculated_cells c1 = [] \<and> using_cells c1 = []
                               \<and> sh' = store sh1 pos None)))
       \<and> (Cell_GetValue fp rd fuel pos sh = (v, sh') \<longrightarrow>
            symmetric_edges sh' \<and> no_dangling sh' \<and> live sh' = live sh)"
proof -
  from assms have e: "edges_ok sh" by (rule reachable_edges_ok)
  have 1: "symmetric_edges sh \<and> no_dangling sh" using e by (simp add: edges_ok_iff)
  have 2: "symmetric_edges sh' \<and> no_dangling sh' \<and> live sh \<subseteq> live sh'"
    if "Sheet_SetCell pf fuel pos txt sh = (r, sh')"
    using SetCell_edges_ok [OF e that] by (simp add: edges_ok_iff)
  have 3: "symmetric_edges sh' \<and> no_dangling sh'
            \<and> (\<forall>p. p \<in> live sh \<and> p \<notin> live sh' \<longrightarrow>
                  p = pos \<and> (\<exists>sh1 c1. Cell_Clear pf fuel pos sh = (Inr (), sh1)
                               \<and> deref sh1 pos = Some c1
                               \<and> calculated_cells c1 = [] \<and> using_cells c1 = []
                               \<and> sh' = store sh1 pos None))"
    if "Sheet_ClearCell pf fuel pos sh = (r, sh')"
    using ClearCell_edges_ok [OF e that] unfolding edges_ok_iff by blast
  have 4: "symmetric_edges sh' \<and> no_dangling sh' \<and> live sh' = live sh"
    if "Cell_GetValue fp rd fuel pos sh = (v, sh')"
    using Cell_GetValue_edges_ok [OF e that] by (simp add: edges_ok_iff)
  from 1 2 3 4 show ?thesis by blast
qed

theorem C3_edge_symmetry_preserved_witness:
  "reachable demo_parser demo_arith demo_reader sheet_A1
   \<and> symmetric_edges sheet_A1 \<and> no_dangling sheet_A1
   \<and> Sheet_ClearCell demo_parser 1 A1 sheet_A1 = (Inr (), sheet_B1_only)
   \<and> symmetric_edges sheet_B1_only \<and> no_dangling sheet_B1_only
   \<and> live sheet_A1 = {A1, B1} \<and> live sheet_B1_only = {B1}"
proof -
  have c: "completed (Inr () :: unit result)" by (simp add: completed_def)
  have r: "reachable demo_parser demo_arith demo_reader sheet_A1"
    by (rule reachable_SetCell [OF reachable_init sheet_A1_reached c])
  have cl: "Sheet_ClearCell demo_parser 1 A1 sheet_A1 = (Inr (), sheet_B1_only)"
    by code_simp
  note t = C3_edge_symmetry_preserved [OF r, where fuel = 1 and pos = A1 and r = "Inr ()"
      and sh' = sheet_B1_only]
  have l: "live sheet_A1 = {A1, B1}" "live sheet_B1_only = {B1}"
    by (auto simp: live_def deref_def in_extent_def slot_def sheet_A1_def sheet_B1_only_def
        A1_def B1_def nth_Cons' Position.expand split: if_splits)
  from t cl r l show ?thesis by simp
qed

section \<open>Text cells are never empty\<close>

lemma text_ok_empty: "text_ok []"
  by (simp add: text_ok_def)

lemma text_ok_impl_frame:
  assumes "impl_frame sh sh'" "text_ok sh"
  shows "text_ok sh'"
  unfolding text_ok_def
proof (intro allI impI)
  fix p c
  assume d: "deref sh' p = Some c"
  from assms(1) have "map_option impl (deref sh' p) = map_option impl (deref sh p)
      \<or> (deref sh p = None \<and> map_option impl (deref sh' p) = Some EmptyImpl)"
    by (simp add: impl_frame_def)
  then show "impl c \<noteq> TextImpl []"
  proof
    assume "map_option impl (deref sh' p) = map_option impl (deref sh p)"
    with d obtain c0 where "deref sh p = Some c0" "impl c0 = impl c" by (cases "deref sh p") auto
    with assms(2) show ?thesis by (auto simp: text_ok_def)
  next
    assume "deref sh p = None \<and> map_option impl (deref sh' p) = Some EmptyImpl"
    with d show ?thesis by auto
  qed
qed

lemma Impl_ResetCache_TextImpl: "Impl_ResetCache i = TextImpl t \<longleftrightarrow> i = TextImpl t"
  by (cases i) auto

lemma text_ok_same_edges:
  assumes "same_edges sh sh'" "text_ok sh"
  shows "text_ok sh'"
  unfolding text_ok_def
proof (intro allI impI)
  fix p c
  assume d: "deref sh' p = Some c"
  with same_edges_at [OF assms(1), of p] obtain c0 where
    c0: "deref sh p = Some c0" "same_but_cache c0 c"
    by (cases "deref sh p") auto
  from c0(2) have "Impl_ResetCache (impl c) = Impl_ResetCache (impl c0)"
    by (simp add: same_but_cache_def)
  moreover from assms(2) c0(1) have "impl c0 \<noteq> TextImpl []" by (simp add: text_ok_def)
  ultimately show "impl c \<noteq> TextImpl []"
    by (metis Impl_ResetCache_TextImpl)
qed

lemma text_ok_store:
  assumes "text_ok sh" "deref sh p = Some c" "impl c' \<noteq> TextImpl []"
  shows "text_ok (store sh p (Some c'))"
  using assms by (auto simp: text_ok_def deref_store_live split: if_splits)

lemma text_ok_release:
  assumes "text_ok sh" "deref sh p = Some c"
  shows "text_ok (store sh p None)"
  using assms by (auto simp: text_ok_def deref_store_None [OF assms(2)] split: if_splits)

lemma candidate_impl:
  assumes "candidate pf fuel txt sh = (Inr new_impl, sh0)"
  shows "new_impl \<noteq> TextImpl []" and "\<And>t. new_impl = TextImpl t \<Longrightarrow> t = txt \<and> txt \<noteq> []"
  using assms
  by (auto simp: candidate_def split: if_splits option.splits prod.splits sum.splits)

lemma rewire_text_ok:
  assumes "edges_ok sh0" "text_ok sh0" "new_impl \<noteq> TextImpl []"
    "rewire pf fuel this new_impl sh0 = (r, sh')"
  shows "text_ok sh'"
proof (cases "deref sh0 this")
  case None
  with assms show ?thesis by (simp add: rewire_def)
next
  case (Some c)
  from rewire_stages [OF assms(1) Some assms(4)] obtain sh4 where
    f: "impl_frame (store sh0 this (Some (c\<lparr>impl := new_impl\<rparr>))) sh4"
    and d: "(\<exists>a. r = Inl a \<and> sh' = sh4) \<or> ResetCache fuel this True sh4 = (r, sh')"
    by blast
  have "text_ok (store sh0 this (Some (c\<lparr>impl := new_impl\<rparr>)))"
    by (rule text_ok_store [OF assms(2) Some]) (simp add: assms(3))
  from text_ok_impl_frame [OF f this] have 4: "text_ok sh4" .
  from d show ?thesis
  proof
    assume "\<exists>a. r = Inl a \<and> sh' = sh4"
    with 4 show ?thesis by auto
  next
    assume "ResetCache fuel this True sh4 = (r, sh')"
    from text_ok_same_edges [OF ResetCache_same_edges [OF this] 4] show ?thesis .
  qed
qed

lemma Cell_Set_text_ok:
  assumes "edges_ok sh" "text_ok sh" "Cell_Set pf fuel this txt pos sh = (r, sh')"
  shows "text_ok sh'"
proof -
  obtain r0 sh0 where c: "candidate pf fuel txt sh = (r0, sh0)"
    by (cases "candidate pf fuel txt sh")
  from candidate_extends [OF c] have e: "extends sh sh0" by simp
  from text_ok_impl_frame [OF extends_impl_frame [OF e] assms(2)] have t0: "text_ok sh0" .
  from candidate_edges_ok [OF assms(1) c] have e0: "edges_ok sh0" by simp
  show ?thesis
  proof (cases r0)
    case (Inl a)
    with assms(3) c have "sh' = sh0" by (simp add: Cell_Set_unfold)
    with t0 show ?thesis by simp
  next
    case (Inr new_impl)
    show ?thesis
    proof (cases "CheckCircularDependencies sh0 new_impl pos")
      case (Inl a)
      with assms(3) c Inr have "sh' = sh0" by (simp add: Cell_Set_unfold)
      with t0 show ?thesis by simp
    next
      case found: (Inr found)
      show ?thesis
      proof (cases found)
        case True
        with assms(3) c Inr found have "sh' = sh0" by (simp add: Cell_Set_unfold)
        with t0 show ?thesis by simp
      next
        case False
        with assms(3) c Inr found have "rewire pf fuel this new_impl sh0 = (r, sh')"
          by (simp add: Cell_Set_unfold)
        from rewire_text_ok [OF e0 t0 _ this] candidate_impl(1) [OF c [unfolded Inr]]
        show ?thesis by simp
      qed
    qed
  qed
qed

lemma SetCell_text_ok:
  assumes "edges_ok sh" "text_ok sh" "Sheet_SetCell pf fuel pos txt sh = (r, sh')"
  shows "text_ok sh'"
proof (cases "IsValid pos")
  case False
  with assms show ?thesis by (simp add: Sheet_SetCell_invalid)
next
  case True
  from assms(3) have c: "Cell_Set pf fuel pos txt pos (materialised sh pos) = (r, sh')"
    by (simp add: Sheet_SetCell_valid [OF True])
  have "text_ok (materialised sh pos)"
    by (rule text_ok_impl_frame [OF extends_impl_frame [OF extends_materialised [OF True]] assms(2)])
  from Cell_Set_text_ok [OF _ this c] assms(1) show ?thesis
    by (simp add: edges_ok_materialised [OF True])
qed

lemma ClearCell_text_ok:
  assumes "edges_ok sh" "text_ok sh" "Sheet_ClearCell pf fuel pos sh = (r, sh')"
  shows "text_ok sh'"
proof (cases "IsValid pos \<and> in_extent sh pos \<and> slot sh pos \<noteq> None")
  case False
  with assms have "sh' = sh" by (auto simp: Sheet_ClearCell_def split: if_splits option.splits)
  with assms(2) show ?thesis by simp
next
  case True
  then obtain c where v: "IsValid pos" and e: "in_extent sh pos" and c: "slot sh pos = Some c"
    by auto
  from v e c have d: "deref sh pos = Some c" by (simp add: deref_def IsValid_def)
  obtain r1 sh1 where cl: "Cell_Clear pf fuel pos sh = (r1, sh1)" by (cases "Cell_Clear pf fuel pos sh")
  with d have cs: "Cell_Set pf fuel pos [] (pos0 c) sh = (r1, sh1)" by (simp add: Cell_Clear_def)
  from Cell_Set_text_ok [OF assms(1,2) cs] have t1: "text_ok sh1" .
  from Cell_Set_edges_ok [OF assms(1) cs] d obtain c1 where d1: "deref sh1 pos = Some c1"
    by (auto simp: live_def)
  then have s1: "slot sh1 pos = Some c1" by (auto dest: deref_Some_range)
  from assms(3) v e c cl s1 have "sh' = sh1 \<or> sh' = store sh1 pos None"
    by (auto simp: Sheet_ClearCell_def split: sum.splits if_splits)
  with t1 text_ok_release [OF t1 d1] show ?thesis by auto
qed

lemma Execute_abort:
  assumes "\<And>p t r t'. I t \<Longrightarrow> args p t = (r, t') \<Longrightarrow> I t' \<and> (\<forall>a. r = Inl a \<longrightarrow> A a)"
    and "A (Throw (FormulaErrorThrown (FormulaError Div0)))"
  shows "I s \<Longrightarrow> Execute fp args e s = (r, s') \<Longrightarrow> I s' \<and> (\<forall>a. r = Inl a \<longrightarrow> A a)"
proof (induction e arbitrary: s r s')
  case (NumberExpr d)
  then show ?case by auto
next
  case (CellExpr p)
  then show ?case using assms(1) by simp
next
  case (UnaryOpExpr op e)
  obtain r1 s1 where e: "Execute fp args e s = (r1, s1)" by (cases "Execute fp args e s")
  from UnaryOpExpr.IH [OF UnaryOpExpr.prems(1) e] UnaryOpExpr.prems(2) e show ?case
    by (cases r1) auto
next
  case (BinaryOpExpr op l r0)
  obtain r1 s1 where l: "Execute fp args l s = (r1, s1)" by (cases "Execute fp args l s")
  note 1 = BinaryOpExpr.IH(1) [OF BinaryOpExpr.prems(1) l]
  show ?case
  proof (cases r1)
    case (Inl a)
    with BinaryOpExpr.prems(2) l 1 show ?thesis by auto
  next
    case (Inr x)
    obtain r2 s2 where r: "Execute fp args r0 s1 = (r2, s2)" by (cases "Execute fp args r0 s1")
    from 1 have "I s1" by simp
    note 2 = BinaryOpExpr.IH(2) [OF this r]
    show ?thesis
    proof (cases r2)
      case (Inl a)
      with BinaryOpExpr.prems(2) l Inr r 2 show ?thesis by auto
    next
      case y: (Inr y)
      with BinaryOpExpr.prems(2) l Inr r have "s' = s2" "r = apply_BinaryOp fp op x y" by simp_all
      with 2 assms(2) show ?thesis
        by (auto simp: apply_BinaryOp_def split: option.splits)
    qed
  qed
qed

lemma Sheet_GetCell_const_valid: "IsValid pos \<Longrightarrow> Sheet_GetCell_const sh pos \<noteq> Inl a"
  by (auto simp: Sheet_GetCell_const_def split: option.splits)

lemma params_abort:
  assumes "\<And>p t r t'. I t \<Longrightarrow> get_value p t = (r, t') \<Longrightarrow> I t' \<and> (\<forall>a. r = Inl a \<longrightarrow> A a)"
    and "\<And>e. A (Throw (FormulaErrorThrown e))"
    and "I sh" "params rd get_value pos sh = (r, sh')"
  shows "I sh' \<and> (\<forall>a. r = Inl a \<longrightarrow> A a)"
proof (cases "IsValid pos")
  case False
  with assms(2,3,4) show ?thesis by (auto simp: params_def)
next
  case True
  show ?thesis
  proof (cases "Sheet_GetCell_const sh pos")
    case (Inl a)
    with Sheet_GetCell_const_valid [OF True] show ?thesis by simp
  next
    case (Inr ptr)
    show ?thesis
    proof (cases ptr)
      case None
      with assms(3,4) True Inr show ?thesis by (auto simp: params_def)
    next
      case (Some cell)
      obtain r1 s1 where g: "get_value cell sh = (r1, s1)" by (cases "get_value cell sh")
      note f = assms(1) [OF assms(3) g]
      from assms(4) True Inr Some g have "sh' = s1"
        by (auto simp: params_def split: sum.splits CellValue.splits if_splits option.splits)
      moreover from assms(4) True Inr Some g have "\<forall>a. r = Inl a \<longrightarrow> r1 = Inl a \<or> (\<exists>e. a = Throw (FormulaErrorThrown e))"
        by (auto simp: params_def split: sum.splits CellValue.splits if_splits option.splits)
      ultimately show ?thesis using f assms(2) by auto
    qed
  qed
qed

lemma text_ok_set_cache: "text_ok sh \<Longrightarrow> text_ok (set_cache this v sh)"
  by (rule text_ok_same_edges [OF set_cache_same_edges])

lemma Cell_GetValue_text_ok:
  "text_ok sh \<Longrightarrow> Cell_GetValue fp rd n this sh = (r, sh') \<Longrightarrow>
     text_ok sh' \<and> (\<forall>a. r = Inl a \<longrightarrow> a \<noteq> Throw FormulaException)"
proof (induction n arbitrary: this sh r sh')
  case 0
  then show ?case by auto
next
  case (Suc n)
  show ?case
  proof (cases "deref sh this")
    case None
    with Suc.prems show ?thesis by auto
  next
    case (Some c)
    show ?thesis
    proof (cases "impl c")
      case EmptyImpl
      with Suc.prems Some show ?thesis by auto
    next
      case (TextImpl t)
      with Suc.prems(1) Some have "t \<noteq> []" by (auto simp: text_ok_def)
      with Suc.prems Some TextImpl show ?thesis by (auto split: if_splits)
    next
      case (FormulaImpl f cache)
      show ?thesis
      proof (cases cache)
        case (Some v)
        with Suc.prems \<open>deref sh this = Some c\<close> FormulaImpl show ?thesis by auto
      next
        case None
        obtain r0 s1 where x: "Execute fp (params rd (Cell_GetValue fp rd n)) (root_expr f) sh = (r0, s1)"
          by (cases "Execute fp (params rd (Cell_GetValue fp rd n)) (root_expr f) sh")
        have 1: "text_ok s1 \<and> (\<forall>a. r0 = Inl a \<longrightarrow> a \<noteq> Throw FormulaException)"
        proof (rule Execute_abort [where I = text_ok and A = "\<lambda>a. a \<noteq> Throw FormulaException",
              OF _ _ Suc.prems(1) x])
          fix p t r t'
          assume t: "text_ok t" and pa: "params rd (Cell_GetValue fp rd n) p t = (r, t')"
          show "text_ok t' \<and> (\<forall>a. r = Inl a \<longrightarrow> a \<noteq> Throw FormulaException)"
          proof (rule params_abort [where I = text_ok and A = "\<lambda>a. a \<noteq> Throw FormulaException"
                and get_value = "Cell_GetValue fp rd n", OF _ _ t pa])
            fix q u w u'
            assume "text_ok u" "Cell_GetValue fp rd n q u = (w, u')"
            then show "text_ok u' \<and> (\<forall>a. w = Inl a \<longrightarrow> a \<noteq> Throw FormulaException)"
              by (rule Suc.IH)
          qed simp
        qed simp
        from Suc.prems(2) \<open>deref sh this = Some c\<close> FormulaImpl None x
        have "(sh' = s1 \<and> r = (case r0 of Inl a \<Rightarrow> Inl a | Inr d \<Rightarrow> Inr (Number d)) \<and> (\<exists>a. r0 = Inl a \<and> r = Inl a))
            \<or> (\<exists>v. sh' = set_cache this v s1 \<and> (\<exists>w. r = Inr w))"
          by (auto simp: Formula_Evaluate_def split: sum.splits abort.splits thrown.splits)
        with 1 text_ok_set_cache show ?thesis by auto
      qed
    qed
  qed
qed

lemma reachable_text_ok: "reachable pf fp rd sh \<Longrightarrow> text_ok sh"
proof (induction rule: reachable.induct)
  case reachable_init
  show ?case by (rule text_ok_empty)
next
  case (reachable_SetCell s0 n p t r s1)
  then show ?case using SetCell_text_ok reachable_edges_ok by blast
next
  case (reachable_ClearCell s0 n p r s1)
  then show ?case using ClearCell_text_ok reachable_edges_ok by blast
next
  case (reachable_GetValue s0 n p v s1)
  then show ?case using Cell_GetValue_text_ok by blast
qed

text \<open>
  C10. \<open>TextImpl::GetValue\<close> throws \<open>FormulaException\<close> when the stored text is empty.
  \<open>Cell::Set\<close> builds a \<open>TextImpl\<close> only from the text it is given and only when that text
  is not empty. In a state that the public operations can reach no \<open>GetValue\<close> ends with
  \<open>FormulaException\<close>.
\<close>

theorem C10_TextImpl_empty_branch_unreachable:
  "(deref sh0 p = Some c \<and> impl c = TextImpl [] \<longrightarrow>
      Cell_GetValue fp rd (Suc n) p sh0 = (Inl (Throw FormulaException), sh0))
   \<and> (candidate pf fuel txt sh0 = (Inr (TextImpl t), sh1) \<longrightarrow> t = txt \<and> txt \<noteq> [])
   \<and> (reachable pf fp rd sh \<longrightarrow>
        (\<forall>q c. deref sh q = Some c \<longrightarrow> impl c \<noteq> TextImpl [])
      \<and> fst (Cell_GetValue fp rd m q sh) \<noteq> Inl (Throw FormulaException))"
proof -
  have 1: "Cell_GetValue fp rd (Suc n) p sh0 = (Inl (Throw FormulaException), sh0)"
    if "deref sh0 p = Some c \<and> impl c = TextImpl []"
    using that by simp
  have 2: "t = txt \<and> txt \<noteq> []" if "candidate pf fuel txt sh0 = (Inr (TextImpl t), sh1)"
    using candidate_impl(2) [OF that] by simp
  have 3: "(\<forall>q c. deref sh q = Some c \<longrightarrow> impl c \<noteq> TextImpl [])
      \<and> fst (Cell_GetValue fp rd m q sh) \<noteq> Inl (Throw FormulaException)"
    if "reachable pf fp rd sh"
  proof -
    from that have t: "text_ok sh" by (rule reachable_text_ok)
    obtain r s' where g: "Cell_GetValue fp rd m q sh = (r, s')" by (cases "Cell_GetValue fp rd m q sh")
    from Cell_GetValue_text_ok [OF t g] have "r \<noteq> Inl (Throw FormulaException)" by auto
    with g t show ?thesis by (simp add: text_ok_def)
  qed
  from 1 2 3 show ?thesis by blast
qed

theorem C10_TextImpl_empty_branch_unreachable_witness:
  "Cell_GetValue demo_arith demo_reader (Suc 0) A1 sheet_bad = (Inl (Throw FormulaException), sheet_bad)
   \<and> candidate demo_parser 1 ''foo'' [] = (Inr (TextImpl ''foo''), [])
   \<and> reachable demo_parser demo_arith demo_reader sheet_foo
   \<and> Cell_GetValue demo_arith demo_reader 1 A1 sheet_foo = (Inr (Str ''foo''), sheet_foo)
   \<and> fst (Cell_GetValue demo_arith demo_reader 1 A1 sheet_foo) \<noteq> Inl (Throw FormulaException)"
proof -
  have c: "completed (Inr () :: unit result)" by (simp add: completed_def)
  have s: "Sheet_SetCell demo_parser 1 A1 ''foo'' [] = (Inr (), sheet_foo)" by code_simp
  have r: "reachable demo_parser demo_arith demo_reader sheet_foo"
    by (rule reachable_SetCell [OF reachable_init s c])
  have d: "deref sheet_bad A1 = Some \<lparr>impl = TextImpl [], calculated_cells = [], using_cells = [],
      pos0 = Position 0 0\<rparr>"
    by code_simp
  have k: "candidate demo_parser 1 ''foo'' [] = (Inr (TextImpl ''foo''), [])"
    by (simp add: candidate_def FORMULA_SIGN_def)
  have g: "Cell_GetValue demo_arith demo_reader 1 A1 sheet_foo = (Inr (Str ''foo''), sheet_foo)" by code_simp
  note t = C10_TextImpl_empty_branch_unreachable [where ?sh0.0 = sheet_bad and p = A1
      and c = "\<lparr>impl = TextImpl [], calculated_cells = [], using_cells = [], pos0 = Position 0 0\<rparr>"
      and rd = demo_reader and n = 0 and pf = demo_parser and sh = sheet_foo and m = 1 and q = A1]
  from t d r k g show ?thesis by simp
qed

section \<open>Cache invalidation\<close>

lemma has_cache_iff:
  "has_cache sh q \<longleftrightarrow> (\<exists>c f v. deref sh q = Some c \<and> impl c = FormulaImpl f (Some v))"
  by (cases "deref sh q") (auto simp: has_cache_def)

lemma has_cache_HasCache:
  "deref sh q = Some c \<Longrightarrow> \<not> Impl_HasCache (impl c) \<Longrightarrow> \<not> has_cache sh q"
  by (cases "impl c") (auto simp: has_cache_iff)

lemma has_cache_impl_frame: "impl_frame sh sh' \<Longrightarrow> has_cache sh q \<Longrightarrow> has_cache sh' q"
  unfolding impl_frame_def has_cache_def by (metis option.distinct(1) option.map_disc_iff)

lemma has_cache_reset_store:
  assumes "deref sh a = Some c"
  shows "has_cache (store sh a (Some (c\<lparr>impl := Impl_ResetCache (impl c)\<rparr>))) q
           \<longleftrightarrow> has_cache sh q \<and> q \<noteq> a"
proof (cases "q = a")
  case True
  then show ?thesis
    using assms by (cases "impl c") (auto simp: has_cache_iff deref_store_live)
next
  case False
  then show ?thesis using assms by (simp add: has_cache_iff deref_store_live)
qed

lemma pass_done_refl: "pass_done s s"
  by (simp add: pass_done_def)

lemma pass_done_trans:
  assumes "pass_done a b" "pass_done b c"
  shows "pass_done a c"
proof -
  from assms have u: "used_by_rel b = used_by_rel a" "used_by_rel c = used_by_rel b"
    and m: "\<And>q. has_cache b q \<Longrightarrow> has_cache a q" "\<And>q. has_cache c q \<Longrightarrow> has_cache b q"
    and d1: "\<And>x. has_cache a x \<Longrightarrow> \<not> has_cache b x \<Longrightarrow> dependents_clear b x"
    and d2: "\<And>x. has_cache b x \<Longrightarrow> \<not> has_cache c x \<Longrightarrow> dependents_clear c x"
    unfolding pass_done_def by blast+
  have "dependents_clear c x" if "has_cache a x" "\<not> has_cache c x" for x
  proof (cases "has_cache b x")
    case True
    with that d2 show ?thesis by blast
  next
    case False
    with that d1 have "dependents_clear b x" by blast
    then show ?thesis
      unfolding dependents_clear_def u using m(2) by blast
  qed
  with u m show ?thesis unfolding pass_done_def by auto
qed

lemma ResetCache_pass:
  "ResetCache fuel a force s = (Inr (), s') \<Longrightarrow>
     pass_done s s' \<and> \<not> has_cache s' a \<and> (force \<longrightarrow> dependents_clear s' a)"
proof (induction fuel arbitrary: a force s s')
  case 0
  then show ?case by simp
next
  case (Suc n)
  from Suc.prems obtain c where c: "deref s a = Some c"
    by (cases "deref s a") auto
  show ?case
  proof (cases "Impl_HasCache (impl c) \<or> force")
    case False
    with Suc.prems c have "s' = s" by simp
    with False c show ?thesis by (simp add: pass_done_refl has_cache_HasCache)
  next
    case True
    let ?s1 = "store s a (Some (c\<lparr>impl := Impl_ResetCache (impl c)\<rparr>))"
    from True Suc.prems c have
      l: "for_each (calculated_cells c) (\<lambda>dependent t. ResetCache n dependent False t) ?s1 = (Inr (), s')"
      by simp
    have u1: "used_by_rel ?s1 = used_by_rel s"
      by (rule rel_store_same_edges(2) [OF c]) simp_all
    have h1: "has_cache ?s1 q \<longleftrightarrow> has_cache s q \<and> q \<noteq> a" for q
      by (rule has_cache_reset_store [OF c])
    have loop: "pass_done t t' \<and> (\<forall>d\<in>set ds. \<not> has_cache t' d)"
      if "for_each ds (\<lambda>dependent t. ResetCache n dependent False t) t = (Inr (), t')" for ds t t'
      using that
    proof (induction ds arbitrary: t)
      case Nil
      then show ?case by (simp add: pass_done_refl)
    next
      case (Cons d ds)
      obtain r1 t1 where b: "ResetCache n d False t = (r1, t1)" by (cases "ResetCache n d False t")
      with Cons.prems have r1: "r1 = Inr ()" and l': "for_each ds (\<lambda>dependent t. ResetCache n dependent False t) t1 = (Inr (), t')"
        by (cases r1; simp)+
      from Suc.IH [OF b [unfolded r1]] have p1: "pass_done t t1" and n1: "\<not> has_cache t1 d" by simp_all
      from Cons.IH [OF l'] have p2: "pass_done t1 t'" and n2: "\<forall>d\<in>set ds. \<not> has_cache t' d"
        by simp_all
      from p2 n1 have "\<not> has_cache t' d" unfolding pass_done_def by blast
      with pass_done_trans [OF p1 p2] n2 show ?case by simp
    qed
    from loop [OF l] have p: "pass_done ?s1 s'" and n: "\<forall>d\<in>set (calculated_cells c). \<not> has_cache s' d"
      by simp_all
    from p have u: "used_by_rel s' = used_by_rel s"
      and m: "\<And>q. has_cache s' q \<Longrightarrow> has_cache ?s1 q"
      and d: "\<And>x. has_cache ?s1 x \<Longrightarrow> \<not> has_cache s' x \<Longrightarrow> dependents_clear s' x"
      unfolding pass_done_def u1 by blast+
    have na: "\<not> has_cache s' a" using m [of a] h1 [of a] by blast
    have da: "dependents_clear s' a"
      unfolding dependents_clear_def u using c n by (auto simp: used_by_rel_iff)
    have "dependents_clear s' x" if "has_cache s x" "\<not> has_cache s' x" for x
    proof (cases "x = a")
      case True
      with da show ?thesis by simp
    next
      case False
      with that h1 [of x] d [of x] show ?thesis by blast
    qed
    with u m h1 have "pass_done s s'" unfolding pass_done_def by blast
    with na da show ?thesis by simp
  qed
qed

lemma stale_steps:
  "Sheet_SetCell demo_parser 2 A1 ''foo'' [] = (Inr (), stale_1)"
  "Sheet_SetCell demo_parser 2 A2 ''1'' stale_1 = (Inr (), stale_2)"
  "Sheet_SetCell demo_parser 2 B2 ''=A2'' stale_2 = (Inr (), stale_3)"
  "Sheet_SetCell demo_parser 2 C1 ''=A1+B2'' stale_3 = (Inr (), stale_4)"
  "Cell_GetValue fp demo_reader 2 C1 stale_4 = (Inr (Error (FormulaError Value)), stale_before)"
  "Sheet_SetCell demo_parser 2 A2 ''2'' stale_before = (Inr (), stale_after)"
  "Sheet_SetCell demo_parser 2 A1 ''bar'' stale_before = (Inr (), fresh_after)"
  by code_simp+

lemma stale_before_reachable: "reachable demo_parser fp demo_reader stale_before"
proof -
  have c: "completed (Inr () :: unit result)"
    "completed (Inr (Error (FormulaError Value)) :: CellValue result)"
    by (simp_all add: completed_def)
  note reachable_init [of demo_parser fp demo_reader]
  note reachable_SetCell [OF this stale_steps(1) c(1)]
  note reachable_SetCell [OF this stale_steps(2) c(1)]
  note reachable_SetCell [OF this stale_steps(3) c(1)]
  note reachable_SetCell [OF this stale_steps(4) c(1)]
  note reachable_GetValue [OF this stale_steps(5) c(2)]
  then show ?thesis .
qed

lemma stale_after_cells:
  "deref stale_after A2 = Some (mk_cell (TextImpl ''2'') [B2] [])"
  "deref stale_after B2 = Some (mk_cell (FormulaImpl (ref_ast A2 ''A2'') None) [C1] [A2])"
  "deref stale_after C1
     = Some (mk_cell (FormulaImpl sum_ast (Some (Failed (FormulaError Value)))) [] [A1, B2])"
  by code_simp+

text \<open>
  C2, as stated, fails. \<open>A1 = "foo"\<close>, \<open>A2 = "1"\<close>, \<open>B2 = "=A2"\<close>, \<open>C1 = "=A1+B2"\<close>; reading C1
  raises \<open>Value\<close> at A1 before B2 is read (no arithmetic step is taken, so this holds for
  every arithmetic), so C1 caches the error while B2 stays without cache. \<open>SetCell(A2, "2")\<close> then stops at B2, and C1, which depends on A2 through B2,
  keeps its cached value.
\<close>

theorem C2_counterexample:
  "reachable demo_parser demo_arith demo_reader stale_before
   \<and> Sheet_SetCell demo_parser 2 A2 ''2'' stale_before = (Inr (), stale_after)
   \<and> \<not> all_dependents_uncached stale_after A2"
proof -
  have "(A2, B2) \<in> used_by_rel stale_after" "(B2, C1) \<in> used_by_rel stale_after"
    by (simp_all add: used_by_rel_iff stale_after_cells mk_cell_def)
  then have "(A2, C1) \<in> (used_by_rel stale_after)\<^sup>*" by (meson rtrancl.simps)
  moreover have "has_cache stale_after C1"
    by (simp add: has_cache_iff stale_after_cells mk_cell_def)
  ultimately have "\<not> all_dependents_uncached stale_after A2"
    unfolding all_dependents_uncached_def by blast
  with stale_before_reachable stale_steps(6) show ?thesis by simp
qed

lemma has_cache_extends: "extends sh sh' \<Longrightarrow> has_cache sh q \<Longrightarrow> has_cache sh' q"
  by (rule has_cache_impl_frame [OF extends_impl_frame])

lemma SetCell_success_stages:
  assumes "edges_ok sh" "Sheet_SetCell pf fuel p txt sh = (Inr (), sh')"
  shows "\<exists>sh4. (\<forall>q. q \<noteq> p \<longrightarrow> has_cache sh q \<longrightarrow> has_cache sh4 q)
            \<and> ResetCache fuel p True sh4 = (Inr (), sh')"
proof -
  have v: "IsValid p"
    using assms(2) by (cases "IsValid p") (simp_all add: Sheet_SetCell_invalid)
  let ?m = "materialised sh p"
  from assms(2) have cs: "Cell_Set pf fuel p txt p ?m = (Inr (), sh')"
    by (simp add: Sheet_SetCell_valid [OF v])
  obtain r0 sh0 where c: "candidate pf fuel txt ?m = (r0, sh0)"
    by (cases "candidate pf fuel txt ?m")
  from candidate_extends [OF c] have e0: "extends ?m sh0" by simp
  have em: "edges_ok ?m" using assms(1) by (simp add: edges_ok_materialised [OF v])
  from candidate_edges_ok [OF em c] have ok0: "edges_ok sh0" by simp
  from cs c obtain new_impl where ni: "r0 = Inr new_impl"
    by (cases r0) (simp_all add: Cell_Set_unfold)
  from cs c ni have rw: "rewire pf fuel p new_impl sh0 = (Inr (), sh')"
    by (auto simp: Cell_Set_unfold split: sum.splits bool.splits if_splits)
  have "deref ?m p \<noteq> None" by (simp add: deref_materialised [OF v])
  with e0 obtain c0 where c0: "deref sh0 p = Some c0"
    unfolding extends_def by (metis option.exhaust)
  let ?sh1 = "store sh0 p (Some (c0\<lparr>impl := new_impl\<rparr>))"
  from rewire_stages [OF ok0 c0 rw] obtain sh4 where
    f: "impl_frame ?sh1 sh4" and rc: "ResetCache fuel p True sh4 = (Inr (), sh')"
    by auto
  have "has_cache sh4 q" if "q \<noteq> p" "has_cache sh q" for q
  proof -
    from has_cache_extends [OF extends_materialised [OF v] that(2)] have "has_cache ?m q" .
    from has_cache_extends [OF e0 this] have "has_cache sh0 q" .
    with that(1) c0 have "has_cache ?sh1 q" by (simp add: has_cache_iff deref_store_live)
    from has_cache_impl_frame [OF f this] show ?thesis .
  qed
  with rc show ?thesis by blast
qed

text \<open>
  C2, amended. After a successful \<open>SetCell(p, _)\<close> the cell at \<open>p\<close> has no cached value, and
  neither has any cell reached from \<open>p\<close> by \<open>used_by\<close> edges along a path whose cells
  between \<open>p\<close> and it all held a cached value when the call began; in particular no direct
  dependent of \<open>p\<close> has one.
\<close>

theorem C2_invalidation_through_cached_cells:
  assumes "reachable pf fp rd sh" "Sheet_SetCell pf fuel p txt sh = (Inr (), sh')"
    and "c \<in> invalidated sh sh' p"
  shows "\<not> has_cache sh' c"
proof -
  from assms(1) have e: "edges_ok sh" by (rule reachable_edges_ok)
  from SetCell_success_stages [OF e assms(2)] obtain sh4 where
    k: "\<And>q. q \<noteq> p \<Longrightarrow> has_cache sh q \<Longrightarrow> has_cache sh4 q"
    and rc: "ResetCache fuel p True sh4 = (Inr (), sh')"
    by blast
  from ResetCache_pass [OF rc] have pd: "pass_done sh4 sh'" and np: "\<not> has_cache sh' p"
    and dp: "dependents_clear sh' p"
    by simp_all
  from pd have d: "\<And>x. has_cache sh4 x \<Longrightarrow> \<not> has_cache sh' x \<Longrightarrow> dependents_clear sh' x"
    unfolding pass_done_def by blast
  from assms(3) show ?thesis
  proof (induction rule: invalidated.induct)
    case invalidated_target
    show ?case by (rule np)
  next
    case (invalidated_step a b)
    have "dependents_clear sh' a"
    proof (cases "a = p")
      case True
      with dp show ?thesis by simp
    next
      case False
      with invalidated_step.hyps(2) have "has_cache sh a" by simp
      from d [OF k [OF False this] invalidated_step.IH] show ?thesis .
    qed
    with invalidated_step.hyps(3) show ?case by (simp add: dependents_clear_def)
  qed
qed

theorem C2_invalidation_through_cached_cells_witness:
  "reachable demo_parser demo_arith demo_reader stale_before
   \<and> Sheet_SetCell demo_parser 2 A1 ''bar'' stale_before = (Inr (), fresh_after)
   \<and> has_cache stale_before C1
   \<and> C1 \<in> invalidated stale_before fresh_after A1
   \<and> \<not> has_cache fresh_after C1"
proof -
  have d: "deref fresh_after A1 = Some (mk_cell (TextImpl ''bar'') [C1] [])"
    "deref stale_before C1
       = Some (mk_cell (FormulaImpl sum_ast (Some (Failed (FormulaError Value)))) [] [A1, B2])"
    by code_simp+
  have u: "(A1, C1) \<in> used_by_rel fresh_after"
    by (simp add: used_by_rel_iff d mk_cell_def)
  have "A1 = A1 \<or> has_cache stale_before A1" by simp
  from invalidated_step [OF invalidated_target this u]
  have i: "C1 \<in> invalidated stale_before fresh_after A1" .
  have h: "has_cache stale_before C1"
    by (simp add: has_cache_iff d mk_cell_def)
  from C2_invalidation_through_cached_cells [OF stale_before_reachable stale_steps(7) i]
    stale_before_reachable stale_steps(7) i h
  show ?thesis by simp
qed

section \<open>Values after a failed \<open>SetCell\<close>\<close>





















end
